theory Spec2Isabelle
  imports Complex_Main "HOL-Library.Word" "HOL-Library.AList"
begin

unbundle bit_operations_syntax

section \<open>Strings of the host language\<close>

text \<open>
  A JavaScript string is a sequence of 16-bit code units. Literals of \<open>script.js\<close> are
  written with \<open>js\<close>, which maps each (ASCII) character to its code unit.
\<close>

type_synonym code_unit = "16 word"
type_synonym jsstring = "code_unit list"

definition js :: "string \<Rightarrow> jsstring" where
  "js s = map of_char s"

text \<open>
  \<open>String.prototype.trim\<close> strips the code units of the ECMAScript productions WhiteSpace
  and LineTerminator from both ends: TAB, LF, VT, FF, CR, SP, NBSP, the other space
  separators of Unicode, LS, PS and the byte order mark.
\<close>

definition is_white_space :: "code_unit \<Rightarrow> bool" where
  "is_white_space c \<longleftrightarrow>
     (0x0009 \<le> c \<and> c \<le> 0x000D) \<or> c = 0x0020 \<or> c = 0x00A0 \<or> c = 0x1680
     \<or> (0x2000 \<le> c \<and> c \<le> 0x200A) \<or> c = 0x2028 \<or> c = 0x2029 \<or> c = 0x202F
     \<or> c = 0x205F \<or> c = 0x3000 \<or> c = 0xFEFF"

definition trim :: "jsstring \<Rightarrow> jsstring" where
  "trim s = rev (dropWhile is_white_space (rev (dropWhile is_white_space s)))"

text \<open>
  \<open>String.prototype.includes\<close>: does the search string occur at some position of the
  receiver, code unit by code unit.
\<close>

fun startsWith :: "'a list \<Rightarrow> 'a list \<Rightarrow> bool" where
  "startsWith s [] = True"
| "startsWith [] (q # qs) = False"
| "startsWith (c # cs) (q # qs) = (c = q \<and> startsWith cs qs)"

fun includes_js :: "'a list \<Rightarrow> 'a list \<Rightarrow> bool" where
  "includes_js [] q = startsWith [] q"
| "includes_js (c # cs) q = (startsWith (c # cs) q \<or> includes_js cs q)"

text \<open>
  \<open>Number.prototype.toString\<close> on an integer-valued number below \<open>10^21\<close> in absolute
  value: the decimal digits, with a minus sign for a negative value. The ids of this
  program are values of \<open>Date.now()\<close>, integers of at most sixteen digits, which JavaScript
  numbers represent exactly; an id is modelled by the integer it is.
\<close>

fun digits :: "nat \<Rightarrow> jsstring" where
  "digits n = (if n < 10 then [of_nat (48 + n)] else digits (n div 10) @ [of_nat (48 + n mod 10)])"

declare digits.simps [simp del]

definition Number_toString :: "int \<Rightarrow> jsstring" where
  "Number_toString n = (if n < 0 then 0x2D # digits (nat (- n)) else digits (nat n))"

section \<open>Tasks and their serialization\<close>

text \<open>
  A task is the object literal \<open>{id, text, completed}\<close> that \<open>addTask\<close> builds. The field
  names carry the prefix \<open>task_\<close>.
\<close>

record task =
  task_id :: int
  task_text :: jsstring
  task_completed :: bool

text \<open>
  \<open>JSON.stringify\<close> of a string: the code units between double quotes, with the
  two-character escapes for backspace, tab, line feed, form feed, carriage return, the
  double quote and the backslash, and \<open>\uXXXX\<close> (lower-case hexadecimal) for the other
  control characters and for a surrogate that is not part of a pair.
\<close>

definition hex_digit :: "nat \<Rightarrow> code_unit" where
  "hex_digit n = (if n < 10 then of_nat (48 + n) else of_nat (87 + n))"

definition unicode_escape :: "code_unit \<Rightarrow> jsstring" where
  "unicode_escape c =
     [0x5C, 0x75, hex_digit (unat c div 4096), hex_digit (unat c div 256 mod 16),
      hex_digit (unat c div 16 mod 16), hex_digit (unat c mod 16)]"

definition is_leading_surrogate :: "code_unit \<Rightarrow> bool" where
  "is_leading_surrogate c \<longleftrightarrow> 0xD800 \<le> c \<and> c \<le> 0xDBFF"

definition is_trailing_surrogate :: "code_unit \<Rightarrow> bool" where
  "is_trailing_surrogate c \<longleftrightarrow> 0xDC00 \<le> c \<and> c \<le> 0xDFFF"

definition quote_unit :: "code_unit \<Rightarrow> jsstring" where
  "quote_unit c =
     (if c = 0x08 then [0x5C, 0x62]
      else if c = 0x09 then [0x5C, 0x74]
      else if c = 0x0A then [0x5C, 0x6E]
      else if c = 0x0C then [0x5C, 0x66]
      else if c = 0x0D then [0x5C, 0x72]
      else if c = 0x22 then [0x5C, 0x22]
      else if c = 0x5C then [0x5C, 0x5C]
      else if c < 0x20 \<or> is_leading_surrogate c \<or> is_trailing_surrogate c
        then unicode_escape c
      else [c])"

fun quote_units :: "jsstring \<Rightarrow> jsstring" where
  "quote_units [] = []"
| "quote_units [c] = quote_unit c"
| "quote_units (c # d # cs) =
     (if is_leading_surrogate c \<and> is_trailing_surrogate d then c # d # quote_units cs
      else quote_unit c @ quote_units (d # cs))"

definition QuoteJSONString :: "jsstring \<Rightarrow> jsstring" where
  "QuoteJSONString s = 0x22 # quote_units s @ [0x22]"

text \<open>
  \<open>JSON.stringify\<close> of a task object: its three properties in creation order, without
  white space; and of the array \<open>todos\<close>: the elements separated by commas.
\<close>

definition stringify_task :: "task \<Rightarrow> jsstring" where
  "stringify_task t =
     0x7B # QuoteJSONString (js ''id'') @ 0x3A # Number_toString (task_id t)
     @ 0x2C # QuoteJSONString (js ''text'') @ 0x3A # QuoteJSONString (task_text t)
     @ 0x2C # QuoteJSONString (js ''completed'') @ 0x3A
       # (if task_completed t then js ''true'' else js ''false'') @ [0x7D]"

fun stringify_elements :: "task list \<Rightarrow> jsstring" where
  "stringify_elements [] = []"
| "stringify_elements [t] = stringify_task t"
| "stringify_elements (t # u # ts) = stringify_task t @ 0x2C # stringify_elements (u # ts)"

definition JSON_stringify :: "task list \<Rightarrow> jsstring" where
  "JSON_stringify ts = 0x5B # stringify_elements ts @ [0x5D]"

section \<open>The page: store, storage slot and document\<close>

text \<open>
  A click listener of a rendered row is the closure over the row's task id:
  \<open>() => toggleTaskCompletion(task.id)\<close> or \<open>() => removeTask(task.id)\<close>.
\<close>

datatype listener = ToggleTaskCompletion int | RemoveTask int

record element =
  tagName :: jsstring
  textContent :: jsstring
  classList :: "jsstring list"
  click :: "listener list"

record list_item =
  li_dataset_id :: jsstring
  li_classList :: "jsstring list"
  li_children :: "element list"

text \<open>
  The state of the page: the global \<open>todos\<close>, the key-value store \<open>localStorage\<close>, the
  values of the two input fields, the children of the list element \<open>taskList\<close>, and the
  messages shown so far by the blocking dialog \<open>alert\<close>.
\<close>

record page =
  todos :: "task list"
  localStorage :: "jsstring \<rightharpoonup> jsstring"
  taskInput :: jsstring
  searchInput :: jsstring
  taskList :: "list_item list"
  alerts :: "jsstring list"

definition STORAGE_KEY :: jsstring where
  "STORAGE_KEY = js ''enhancedTodos''"

definition saveTasks :: "page \<Rightarrow> page" where
  "saveTasks s = s\<lparr>localStorage := (localStorage s)(STORAGE_KEY \<mapsto> JSON_stringify (todos s))\<rparr>"

subsection \<open>Rendering\<close>

text \<open>\<open>DOMTokenList.add\<close> adds a token that is not yet in the list.\<close>

definition classList_add :: "jsstring \<Rightarrow> jsstring list \<Rightarrow> jsstring list" where
  "classList_add c cs = (if c \<in> set cs then cs else cs @ [c])"

text \<open>
  The body of the \<open>forEach\<close> callback of \<open>renderTasks\<close>: the list item built for one task.
  \<open>String.prototype.toLowerCase\<close> is a facility of the platform (the Unicode case
  mapping); the model takes it as the parameter \<open>toLowerCase\<close>.
\<close>

definition render_task :: "(jsstring \<Rightarrow> jsstring) \<Rightarrow> jsstring \<Rightarrow> task \<Rightarrow> list_item" where
  "render_task toLowerCase searchQuery task =
     (let listItem = \<lparr>li_dataset_id = Number_toString (task_id task), li_classList = [],
                       li_children = []\<rparr>;
          matchesSearch = includes_js (toLowerCase (task_text task)) searchQuery;
          listItem = (if \<not> matchesSearch
                      then listItem\<lparr>li_classList := classList_add (js ''hidden'') (li_classList listItem)\<rparr>
                      else listItem);
          listItem = (if task_completed task
                      then listItem\<lparr>li_classList := classList_add (js ''completed'') (li_classList listItem)\<rparr>
                      else listItem);
          taskText = \<lparr>tagName = js ''span'', textContent = task_text task,
                      classList = classList_add (js ''task-text'') [],
                      click = [ToggleTaskCompletion (task_id task)]\<rparr>;
          deleteBtn = \<lparr>tagName = js ''button'', textContent = [0x00E2, 0x0153, 0x2013],
                       classList = classList_add (js ''delete-btn'') [],
                       click = [RemoveTask (task_id task)]\<rparr>;
          listItem = listItem\<lparr>li_children := li_children listItem @ [taskText]\<rparr>;
          listItem = listItem\<lparr>li_children := li_children listItem @ [deleteBtn]\<rparr>
      in listItem)"

text \<open>
  \<open>renderTasks\<close> empties the list element and appends one list item per task, in the order
  of \<open>todos\<close>.
\<close>

definition renderTasks :: "(jsstring \<Rightarrow> jsstring) \<Rightarrow> page \<Rightarrow> page" where
  "renderTasks toLowerCase s =
     (let searchQuery = toLowerCase (searchInput s)
      in foldl (\<lambda>s' task. s'\<lparr>taskList := taskList s' @ [render_task toLowerCase searchQuery task]\<rparr>)
           (s\<lparr>taskList := []\<rparr>) (todos s))"

subsection \<open>Create, update, delete\<close>

text \<open>
  \<open>addTask\<close> reads the clock: \<open>now\<close> is the value of \<open>Date.now()\<close> at the call.
\<close>

definition addTask :: "(jsstring \<Rightarrow> jsstring) \<Rightarrow> int \<Rightarrow> page \<Rightarrow> page" where
  "addTask toLowerCase now s =
     (let text = trim (taskInput s)
      in if text = [] then s\<lparr>alerts := alerts s @ [js ''Task description cannot be empty!'']\<rparr>
         else
           let newTask = \<lparr>task_id = now, task_text = text, task_completed = False\<rparr>;
               s = s\<lparr>todos := todos s @ [newTask]\<rparr>;
               s = saveTasks s;
               s = renderTasks toLowerCase s
           in s\<lparr>taskInput := []\<rparr>)"

text \<open>\<open>Array.prototype.findIndex\<close>: the index of the first match, or \<open>-1\<close>.\<close>

fun findIndex_from :: "int \<Rightarrow> ('a \<Rightarrow> bool) \<Rightarrow> 'a list \<Rightarrow> int" where
  "findIndex_from k P [] = - 1"
| "findIndex_from k P (x # xs) = (if P x then k else findIndex_from (k + 1) P xs)"

definition findIndex :: "('a \<Rightarrow> bool) \<Rightarrow> 'a list \<Rightarrow> int" where
  "findIndex P xs = findIndex_from 0 P xs"

definition toggleTaskCompletion :: "(jsstring \<Rightarrow> jsstring) \<Rightarrow> int \<Rightarrow> page \<Rightarrow> page" where
  "toggleTaskCompletion toLowerCase id' s =
     (let taskIndex = findIndex (\<lambda>task. task_id task = id') (todos s)
      in if taskIndex \<noteq> - 1
         then
           let i = nat taskIndex;
               s = s\<lparr>todos := (todos s)[i := (todos s ! i)\<lparr>task_completed := \<not> task_completed (todos s ! i)\<rparr>]\<rparr>;
               s = saveTasks s
           in renderTasks toLowerCase s
         else s)"

definition removeTask :: "(jsstring \<Rightarrow> jsstring) \<Rightarrow> int \<Rightarrow> page \<Rightarrow> page" where
  "removeTask toLowerCase id' s =
     (let s = s\<lparr>todos := filter (\<lambda>task. task_id task \<noteq> id') (todos s)\<rparr>;
          s = saveTasks s
      in renderTasks toLowerCase s)"

section \<open>Reading the storage slot back\<close>

text \<open>
  \<open>JSON.parse\<close> is the platform's parser of the JSON grammar (ECMA-404). Its result is a
  JavaScript value: \<open>null\<close>, a boolean, a number, a string, an array, or an object, which
  is the list of its properties in creation order. A number token is kept as the exact
  decimal value it denotes; JavaScript rounds that value to the nearest double, which is
  the same number for the integers \<open>Date.now()\<close> produces (and \<open>-0\<close> is read as \<open>0\<close>).
  A text that is not in the grammar raises \<open>SyntaxError\<close>.
\<close>

datatype json =
    JNull
  | JBoolean bool
  | JNumber rat
  | JString jsstring
  | JArray "json list"
  | JObject "(jsstring \<times> json) list"

datatype exception = SyntaxError

text \<open>White space between tokens: space, tab, line feed, carriage return.\<close>

definition is_json_ws :: "code_unit \<Rightarrow> bool" where
  "is_json_ws c \<longleftrightarrow> c = 0x20 \<or> c = 0x09 \<or> c = 0x0A \<or> c = 0x0D"

definition skip_ws :: "jsstring \<Rightarrow> jsstring" where
  "skip_ws s = dropWhile is_json_ws s"

text \<open>Number tokens: \<open>-? (0 | [1-9][0-9]*) (. [0-9]+)? ([eE] [+-]? [0-9]+)?\<close>.\<close>

definition is_digit :: "code_unit \<Rightarrow> bool" where
  "is_digit c \<longleftrightarrow> 0x30 \<le> c \<and> c \<le> 0x39"

definition digit_value :: "code_unit \<Rightarrow> nat" where
  "digit_value c = unat c - 48"

definition digits_value :: "jsstring \<Rightarrow> nat" where
  "digits_value ds = foldl (\<lambda>a c. 10 * a + digit_value c) 0 ds"

text \<open>
  String tokens: after the opening quote, any code unit from \<open>0x20\<close> on except the quote
  and the backslash; a backslash starts an escape: a quote, a backslash, a slash, one of
  the letters b, f, n, r, t, or the letter u with four hexadecimal digits.
  \<open>parse_chars\<close> returns the string and the input after the closing quote.
\<close>

definition hex_value :: "code_unit \<Rightarrow> nat option" where
  "hex_value c =
     (if 0x30 \<le> c \<and> c \<le> 0x39 then Some (unat c - 48)
      else if 0x61 \<le> c \<and> c \<le> 0x66 then Some (unat c - 87)
      else if 0x41 \<le> c \<and> c \<le> 0x46 then Some (unat c - 55)
      else None)"

definition read_escape :: "jsstring \<Rightarrow> (code_unit \<times> jsstring) option" where
  "read_escape s =
     (case s of
        [] \<Rightarrow> None
      | e # es \<Rightarrow>
          if e = 0x22 then Some (0x22, es)
          else if e = 0x5C then Some (0x5C, es)
          else if e = 0x2F then Some (0x2F, es)
          else if e = 0x62 then Some (0x08, es)
          else if e = 0x66 then Some (0x0C, es)
          else if e = 0x6E then Some (0x0A, es)
          else if e = 0x72 then Some (0x0D, es)
          else if e = 0x74 then Some (0x09, es)
          else if e = 0x75 then
            (case es of
               h3 # h2 # h1 # h0 # r \<Rightarrow>
                 (case (hex_value h3, hex_value h2, hex_value h1, hex_value h0) of
                    (Some a, Some b, Some c, Some d) \<Rightarrow>
                      Some (of_nat (((a * 16 + b) * 16 + c) * 16 + d), r)
                  | _ \<Rightarrow> None)
             | _ \<Rightarrow> None)
          else None)"

function parse_chars :: "jsstring \<Rightarrow> (jsstring \<times> jsstring) option" where
  "parse_chars [] = None"
| "parse_chars (c # cs) =
     (if c = 0x22 then Some ([], cs)
      else if c = 0x5C then
        (case read_escape cs of
           None \<Rightarrow> None
         | Some (u, r) \<Rightarrow>
             (case parse_chars r of None \<Rightarrow> None | Some (str, rest) \<Rightarrow> Some (u # str, rest)))
      else if c < 0x20 then None
      else (case parse_chars cs of None \<Rightarrow> None | Some (str, rest) \<Rightarrow> Some (c # str, rest)))"
  by pat_completeness auto
termination
  by (relation "measure length")
     (auto simp: read_escape_def split: list.splits if_splits option.splits)

definition parse_int_part :: "jsstring \<Rightarrow> (jsstring \<times> jsstring) option" where
  "parse_int_part s =
     (case s of
        [] \<Rightarrow> None
      | c # cs \<Rightarrow>
          if c = 0x30 then Some ([c], cs)
          else if is_digit c then Some (takeWhile is_digit s, dropWhile is_digit s)
          else None)"

definition parse_fraction :: "jsstring \<Rightarrow> (jsstring \<times> jsstring) option" where
  "parse_fraction s =
     (case s of
        [] \<Rightarrow> Some ([], s)
      | c # cs \<Rightarrow>
          if c = 0x2E
          then (if takeWhile is_digit cs = [] then None
                else Some (takeWhile is_digit cs, dropWhile is_digit cs))
          else Some ([], s))"

definition parse_sign :: "jsstring \<Rightarrow> bool \<times> jsstring" where
  "parse_sign s =
     (case s of
        [] \<Rightarrow> (False, s)
      | c # cs \<Rightarrow> if c = 0x2D then (True, cs) else if c = 0x2B then (False, cs) else (False, s))"

definition parse_exponent :: "jsstring \<Rightarrow> (int \<times> jsstring) option" where
  "parse_exponent s =
     (case s of
        [] \<Rightarrow> Some (0, s)
      | c # cs \<Rightarrow>
          if c = 0x65 \<or> c = 0x45
          then (let (neg, r) = parse_sign cs
                in if takeWhile is_digit r = [] then None
                   else Some ((if neg then - int (digits_value (takeWhile is_digit r))
                               else int (digits_value (takeWhile is_digit r))),
                              dropWhile is_digit r))
          else Some (0, s))"

definition parse_number :: "jsstring \<Rightarrow> (rat \<times> jsstring) option" where
  "parse_number s =
     (let (neg, s1) = (case s of [] \<Rightarrow> (False, s) | c # cs \<Rightarrow> if c = 0x2D then (True, cs) else (False, s))
      in case parse_int_part s1 of
           None \<Rightarrow> None
         | Some (ip, s2) \<Rightarrow>
             (case parse_fraction s2 of
                None \<Rightarrow> None
              | Some (fp, s3) \<Rightarrow>
                  (case parse_exponent s3 of
                     None \<Rightarrow> None
                   | Some (e, s4) \<Rightarrow>
                       Some ((if neg then - 1 else 1)
                             * (of_nat (digits_value (ip @ fp)) / 10 ^ length fp)
                             * (if 0 \<le> e then 10 ^ nat e else 1 / 10 ^ nat (- e)), s4))))"

text \<open>
  Defining a property that the object already has replaces its value and keeps its place;
  a new property goes to the end.
\<close>

definition set_property :: "(jsstring \<times> json) list \<Rightarrow> jsstring \<times> json \<Rightarrow> (jsstring \<times> json) list" where
  "set_property obj kv = AList.update (fst kv) (snd kv) obj"

text \<open>
  Values, by recursive descent. The first argument bounds the recursion: every recursive
  call is on a shorter input, or is the first element of an array, so the length of the
  text is enough (\<open>parse_value_fuel\<close> below). \<open>parse_elements\<close> starts at the first
  element of a non-empty array and returns after the closing bracket; \<open>parse_members\<close>
  starts at the first property name of a non-empty object and returns after the closing
  brace.
\<close>

function (sequential) parse_value :: "nat \<Rightarrow> jsstring \<Rightarrow> (json \<times> jsstring) option"
and parse_elements :: "nat \<Rightarrow> jsstring \<Rightarrow> (json list \<times> jsstring) option"
and parse_members :: "nat \<Rightarrow> jsstring \<Rightarrow> ((jsstring \<times> json) list \<times> jsstring) option"
where
  "parse_value 0 s = None"
| "parse_value (Suc n) [] = None"
| "parse_value (Suc n) (c # cs) =
     (if c = 0x7B then
        (case skip_ws cs of
           [] \<Rightarrow> None
         | d # ds \<Rightarrow>
             if d = 0x7D then Some (JObject [], ds)
             else (case parse_members n (d # ds) of
                     None \<Rightarrow> None
                   | Some (ms, r) \<Rightarrow> Some (JObject (foldl set_property [] ms), r)))
      else if c = 0x5B then
        (case skip_ws cs of
           [] \<Rightarrow> None
         | d # ds \<Rightarrow>
             if d = 0x5D then Some (JArray [], ds)
             else (case parse_elements n (d # ds) of
                     None \<Rightarrow> None
                   | Some (vs, r) \<Rightarrow> Some (JArray vs, r)))
      else if c = 0x22 then
        (case parse_chars cs of None \<Rightarrow> None | Some (str, r) \<Rightarrow> Some (JString str, r))
      else if c = 0x2D \<or> is_digit c then
        (case parse_number (c # cs) of None \<Rightarrow> None | Some (x, r) \<Rightarrow> Some (JNumber x, r))
      else if startsWith (c # cs) (js ''true'') then Some (JBoolean True, drop 4 (c # cs))
      else if startsWith (c # cs) (js ''false'') then Some (JBoolean False, drop 5 (c # cs))
      else if startsWith (c # cs) (js ''null'') then Some (JNull, drop 4 (c # cs))
      else None)"
| "parse_elements 0 s = None"
| "parse_elements (Suc n) s =
     (case parse_value (Suc n) s of
        None \<Rightarrow> None
      | Some (v, r) \<Rightarrow>
          (case skip_ws r of
             [] \<Rightarrow> None
           | d # ds \<Rightarrow>
               if d = 0x2C then
                 (case parse_elements n (skip_ws ds) of
                    None \<Rightarrow> None
                  | Some (vs, r') \<Rightarrow> Some (v # vs, r'))
               else if d = 0x5D then Some ([v], ds)
               else None))"
| "parse_members 0 s = None"
| "parse_members (Suc n) [] = None"
| "parse_members (Suc n) (c # cs) =
     (if c = 0x22 then
        (case parse_chars cs of
           None \<Rightarrow> None
         | Some (k, r) \<Rightarrow>
             (case skip_ws r of
                [] \<Rightarrow> None
              | d # ds \<Rightarrow>
                  if d = 0x3A then
                    (case parse_value n (skip_ws ds) of
                       None \<Rightarrow> None
                     | Some (v, r') \<Rightarrow>
                         (case skip_ws r' of
                            [] \<Rightarrow> None
                          | e # es \<Rightarrow>
                              if e = 0x2C then
                                (case parse_members n (skip_ws es) of
                                   None \<Rightarrow> None
                                 | Some (ms, r'') \<Rightarrow> Some ((k, v) # ms, r''))
                              else if e = 0x7D then Some ([(k, v)], es)
                              else None))
                  else None))
      else None)"

  by pat_completeness auto
termination
  by (relation "measures
        [\<lambda>x. case x of Inl (n, s) \<Rightarrow> n | Inr (Inl (n, s)) \<Rightarrow> n | Inr (Inr (n, s)) \<Rightarrow> n,
         \<lambda>x. case x of Inl (n, s) \<Rightarrow> 0 | Inr (Inl (n, s)) \<Rightarrow> 1 | Inr (Inr (n, s)) \<Rightarrow> 0]")
     simp_all

definition JSON_parse :: "jsstring \<Rightarrow> exception + json" where
  "JSON_parse text =
     (case parse_value (length text) (skip_ws text) of
        None \<Rightarrow> Inl SyntaxError
      | Some (v, r) \<Rightarrow> if skip_ws r = [] then Inr v else Inl SyntaxError)"

text \<open>
  The JavaScript value of a task, and of an array of tasks: what \<open>todos\<close> holds when it
  holds a task collection.
\<close>

definition task_value :: "task \<Rightarrow> json" where
  "task_value t =
     JObject [(js ''id'', JNumber (of_int (task_id t))),
              (js ''text'', JString (task_text t)),
              (js ''completed'', JBoolean (task_completed t))]"

definition todos_value :: "task list \<Rightarrow> json" where
  "todos_value ts = JArray (map task_value ts)"

text \<open>
  \<open>loadTasks\<close> assigns to \<open>todos\<close> either the empty array or whatever \<open>JSON.parse\<close>
  returns, which may be any value; an exception of \<open>JSON.parse\<close> is not caught. The model
  returns the value assigned, or the exception.
\<close>

definition loadTasks :: "page \<Rightarrow> exception + json" where
  "loadTasks s =
     (case localStorage s STORAGE_KEY of
        None \<Rightarrow> Inr (JArray [])
      | Some storedTodos \<Rightarrow>
          if storedTodos \<noteq> [] then JSON_parse storedTodos else Inr (JArray []))"

section \<open>Concrete inputs\<close>

text \<open>
  A lower-casing that maps the letters A to Z only, and a page with two tasks, used to
  evaluate the operations on concrete inputs.
\<close>

definition toLowerCase_ascii :: "jsstring \<Rightarrow> jsstring" where
  "toLowerCase_ascii s = map (\<lambda>c. if 0x41 \<le> c \<and> c \<le> 0x5A then c + 0x20 else c) s"

definition example_page :: page where
  "example_page =
     \<lparr>todos = [\<lparr>task_id = 1730000000000, task_text = js ''Buy Milk'', task_completed = False\<rparr>,
               \<lparr>task_id = 1730000000001, task_text = js ''eggs'', task_completed = True\<rparr>],
      localStorage = Map.empty, taskInput = js ''  call Bob '', searchInput = js ''MILK'',
      taskList = [], alerts = []\<rparr>"

section \<open>The store operations\<close>

subsection \<open>What each operation does to the page\<close>

text \<open>The rendering loop yields one list item per task, and touches the list only.\<close>

lemma render_loop:
  "foldl (\<lambda>s' task. s'\<lparr>taskList := taskList s' @ [f task]\<rparr>) s0 ts
     = s0\<lparr>taskList := taskList s0 @ map f ts\<rparr>"
  by (induction ts arbitrary: s0) simp_all

lemma renderTasks_eq:
  "renderTasks lc s = s\<lparr>taskList := map (render_task lc (lc (searchInput s))) (todos s)\<rparr>"
  by (simp add: renderTasks_def Let_def render_loop)

text \<open>
  \<open>findIndex\<close> returns \<open>-1\<close> when nothing matches and the position of the first match
  otherwise, so the index \<open>toggleTaskCompletion\<close> reads and writes is within the array.
\<close>

lemma findIndex_from_none:
  "(\<forall>x \<in> set xs. \<not> P x) \<Longrightarrow> findIndex_from k P xs = - 1"
  by (induction xs arbitrary: k) simp_all

lemma findIndex_from_first:
  "\<forall>x \<in> set ys. \<not> P x \<Longrightarrow> P x \<Longrightarrow> findIndex_from k P (ys @ x # zs) = k + int (length ys)"
  by (induction ys arbitrary: k) simp_all

lemma findIndex_from_range:
  "0 \<le> k \<Longrightarrow> findIndex_from k P xs \<noteq> - 1 \<Longrightarrow>
     k \<le> findIndex_from k P xs \<and> findIndex_from k P xs < k + int (length xs)
     \<and> P (xs ! nat (findIndex_from k P xs - k))
     \<and> (\<forall>j < nat (findIndex_from k P xs - k). \<not> P (xs ! j))"
proof (induction xs arbitrary: k)
  case Nil
  then show ?case by simp
next
  case (Cons x xs)
  show ?case
  proof (cases "P x")
    case True
    then show ?thesis using Cons.prems by simp
  next
    case False
    with Cons.prems have ne: "findIndex_from (k + 1) P xs \<noteq> - 1" by simp
    from Cons.IH [OF _ ne] Cons.prems
    have ih: "k + 1 \<le> findIndex_from (k + 1) P xs"
      "findIndex_from (k + 1) P xs < k + 1 + int (length xs)"
      "P (xs ! nat (findIndex_from (k + 1) P xs - (k + 1)))"
      "\<forall>j < nat (findIndex_from (k + 1) P xs - (k + 1)). \<not> P (xs ! j)"
      by simp_all
    have eq: "nat (findIndex_from (k + 1) P xs - k) = Suc (nat (findIndex_from (k + 1) P xs - (k + 1)))"
      using ih(1) by simp
    show ?thesis using False ih eq
      by (auto simp: nth_Cons split: nat.splits)
  qed
qed

lemma findIndex_in_range:
  "findIndex P xs \<noteq> - 1 \<Longrightarrow> nat (findIndex P xs) < length xs \<and> P (xs ! nat (findIndex P xs))"
  using findIndex_from_range [of 0 P xs] by (auto simp: findIndex_def nat_less_iff)

lemma findIndex_absent:
  "id' \<notin> task_id ` set ts \<Longrightarrow> findIndex (\<lambda>task. task_id task = id') ts = - 1"
  unfolding findIndex_def by (rule findIndex_from_none) auto


text \<open>The fields of the page after saving and after rendering.\<close>

lemma saveTasks_simps [simp]:
  "todos (saveTasks s) = todos s"
  "taskInput (saveTasks s) = taskInput s"
  "searchInput (saveTasks s) = searchInput s"
  "taskList (saveTasks s) = taskList s"
  "alerts (saveTasks s) = alerts s"
  "localStorage (saveTasks s) = (localStorage s)(STORAGE_KEY \<mapsto> JSON_stringify (todos s))"
  by (simp_all add: saveTasks_def)

lemma renderTasks_simps [simp]:
  "todos (renderTasks lc s) = todos s"
  "taskInput (renderTasks lc s) = taskInput s"
  "searchInput (renderTasks lc s) = searchInput s"
  "alerts (renderTasks lc s) = alerts s"
  "localStorage (renderTasks lc s) = localStorage s"
  "taskList (renderTasks lc s) = map (render_task lc (lc (searchInput s))) (todos s)"
  by (simp_all add: renderTasks_eq)

text \<open>The collection after each of the three operations.\<close>

lemma todos_addTask:
  "todos (addTask lc now s) =
     (if trim (taskInput s) = [] then todos s
      else todos s @ [\<lparr>task_id = now, task_text = trim (taskInput s), task_completed = False\<rparr>])"
  by (simp add: addTask_def Let_def)

lemma todos_removeTask:
  "todos (removeTask lc id' s) = filter (\<lambda>task. task_id task \<noteq> id') (todos s)"
  by (simp add: removeTask_def Let_def)

lemma todos_toggle_absent:
  "id' \<notin> task_id ` set (todos s) \<Longrightarrow> toggleTaskCompletion lc id' s = s"
  by (simp add: toggleTaskCompletion_def Let_def findIndex_absent)

lemma todos_toggle_first:
  assumes "todos s = ys @ x # zs" "task_id x = id'" "\<forall>y \<in> set ys. task_id y \<noteq> id'"
  shows "todos (toggleTaskCompletion lc id' s) = ys @ x\<lparr>task_completed := \<not> task_completed x\<rparr> # zs"
proof -
  have "findIndex (\<lambda>task. task_id task = id') (todos s) = int (length ys)"
    unfolding findIndex_def assms(1)
    using findIndex_from_first [of ys "\<lambda>task. task_id task = id'" x 0 zs] assms(2,3) by simp
  then show ?thesis
    by (simp add: toggleTaskCompletion_def Let_def assms(1))
qed

lemma todos_toggle_map:
  assumes "distinct (map task_id (todos s))"
  shows "todos (toggleTaskCompletion lc id' s)
           = map (\<lambda>u. if task_id u = id' then u\<lparr>task_completed := \<not> task_completed u\<rparr> else u) (todos s)"
proof (cases "id' \<in> task_id ` set (todos s)")
  case False
  then have "\<forall>u \<in> set (todos s). task_id u \<noteq> id'" by auto
  then have "map (\<lambda>u. if task_id u = id' then u\<lparr>task_completed := \<not> task_completed u\<rparr> else u) (todos s) = todos s"
    by (simp add: map_idI)
  with False show ?thesis by (simp add: todos_toggle_absent)
next
  case True
  then have "\<exists>x \<in> set (todos s). task_id x = id'" by auto
  then obtain ys x zs where split: "todos s = ys @ x # zs" "task_id x = id'"
      "\<forall>y \<in> set ys. task_id y \<noteq> id'"
    using split_list_first_prop [of "todos s" "\<lambda>x. task_id x = id'"] by blast
  from assms split have "\<forall>z \<in> set zs. task_id z \<noteq> id'" by (auto simp: image_iff)
  with split(2,3) have "map (\<lambda>u. if task_id u = id' then u\<lparr>task_completed := \<not> task_completed u\<rparr> else u) (ys @ x # zs)
      = ys @ x\<lparr>task_completed := \<not> task_completed x\<rparr> # zs"
    by (simp add: map_idI)
  then show ?thesis using todos_toggle_first [OF split] split(1) by simp
qed

lemma ids_toggle:
  "map task_id (todos (toggleTaskCompletion lc id' s)) = map task_id (todos s)"
proof (cases "id' \<in> task_id ` set (todos s)")
  case False
  then show ?thesis by (simp add: todos_toggle_absent)
next
  case True
  then have "\<exists>x \<in> set (todos s). task_id x = id'" by auto
  then obtain ys x zs where split: "todos s = ys @ x # zs" "task_id x = id'"
      "\<forall>y \<in> set ys. task_id y \<noteq> id'"
    using split_list_first_prop [of "todos s" "\<lambda>x. task_id x = id'"] by blast
  show ?thesis using todos_toggle_first [OF split] split(1) by simp
qed

text \<open>
  The trimmed input is empty exactly when the input is empty or holds white space only.
\<close>

lemma trim_Nil_iff: "trim s = [] \<longleftrightarrow> (\<forall>c \<in> set s. is_white_space c)"
proof -
  have "trim s = [] \<longleftrightarrow> (\<forall>c \<in> set (dropWhile is_white_space s). is_white_space c)"
    by (simp add: trim_def dropWhile_eq_Nil_conv)
  also have "\<dots> \<longleftrightarrow> dropWhile is_white_space s = []"
  proof
    assume a: "\<forall>c \<in> set (dropWhile is_white_space s). is_white_space c"
    show "dropWhile is_white_space s = []"
    proof (rule ccontr)
      assume n: "dropWhile is_white_space s \<noteq> []"
      then have "\<not> is_white_space (hd (dropWhile is_white_space s))" by (rule hd_dropWhile)
      moreover have "hd (dropWhile is_white_space s) \<in> set (dropWhile is_white_space s)"
        using n by simp
      ultimately show False using a by blast
    qed
  next
    assume e: "dropWhile is_white_space s = []"
    show "\<forall>c \<in> set (dropWhile is_white_space s). is_white_space c" unfolding e by simp
  qed
  also have "\<dots> \<longleftrightarrow> (\<forall>c \<in> set s. is_white_space c)"
    by (simp add: dropWhile_eq_Nil_conv)
  finally show ?thesis .
qed

subsection \<open>Adding, toggling and removing\<close>

text \<open>
  Claim C2. When the trimmed input is not empty, \<open>addTask\<close> appends exactly one task at the
  end of the collection: its text is the trimmed input and it is not completed; the size
  grows by one and the tasks that were there are unchanged.
\<close>

theorem addTask_appends_one:
  assumes "trim (taskInput s) \<noteq> []"
  shows "todos (addTask toLowerCase now s)
           = todos s @ [\<lparr>task_id = now, task_text = trim (taskInput s), task_completed = False\<rparr>]
         \<and> length (todos (addTask toLowerCase now s)) = length (todos s) + 1
         \<and> take (length (todos s)) (todos (addTask toLowerCase now s)) = todos s"
  using assms by (simp add: todos_addTask)

theorem addTask_appends_one_witness:
  "trim (taskInput example_page) \<noteq> []
   \<and> todos (addTask toLowerCase_ascii 1730000000002 example_page)
       = todos example_page
         @ [\<lparr>task_id = 1730000000002, task_text = js ''call Bob'', task_completed = False\<rparr>]"
proof -
  have t: "trim (taskInput example_page) = js ''call Bob''"
    by (simp add: example_page_def trim_def js_def is_white_space_def)
  then have h: "trim (taskInput example_page) \<noteq> []" by (simp add: js_def)
  from addTask_appends_one [OF h, of toLowerCase_ascii 1730000000002] t h
  show ?thesis by simp
qed

text \<open>
  Claim C3. When the trimmed input is empty (the input is empty or holds white space only),
  \<open>addTask\<close> shows the blocking notification and changes nothing else: the collection and
  its size, the input field, the storage slot and the rendered list stay as they were.
\<close>

theorem addTask_empty_rejected:
  assumes "trim (taskInput s) = []"
  shows "alerts (addTask toLowerCase now s) = alerts s @ [js ''Task description cannot be empty!'']
         \<and> todos (addTask toLowerCase now s) = todos s
         \<and> length (todos (addTask toLowerCase now s)) = length (todos s)
         \<and> taskInput (addTask toLowerCase now s) = taskInput s
         \<and> localStorage (addTask toLowerCase now s) = localStorage s
         \<and> taskList (addTask toLowerCase now s) = taskList s"
  using assms by (simp add: addTask_def Let_def)

theorem addTask_empty_rejected_witness:
  "trim (taskInput (example_page\<lparr>taskInput := js ''   ''\<rparr>)) = []
   \<and> alerts (addTask toLowerCase_ascii 1730000000002 (example_page\<lparr>taskInput := js ''   ''\<rparr>))
       = [js ''Task description cannot be empty!'']
   \<and> length (todos (addTask toLowerCase_ascii 1730000000002 (example_page\<lparr>taskInput := js ''   ''\<rparr>))) = 2
   \<and> taskInput (addTask toLowerCase_ascii 1730000000002 (example_page\<lparr>taskInput := js ''   ''\<rparr>))
       = js ''   ''"
proof -
  have h: "trim (taskInput (example_page\<lparr>taskInput := js ''   ''\<rparr>)) = []"
    by (simp add: trim_def js_def is_white_space_def)
  from addTask_empty_rejected [OF h, of toLowerCase_ascii 1730000000002] h
  show ?thesis by (simp add: example_page_def)
qed

text \<open>
  Claim C4. In a collection with unique ids, \<open>toggleTaskCompletion\<close> on the id of a task
  \<open>t\<close> of the collection flips the completed flag of \<open>t\<close> and changes nothing else: the id
  and text of \<open>t\<close> and every other task stay as they were. Toggling twice restores the
  collection.
\<close>

theorem toggle_flips_one_and_is_involution:
  assumes "distinct (map task_id (todos s))" and "t \<in> set (todos s)"
  shows "todos (toggleTaskCompletion toLowerCase (task_id t) s)
           = map (\<lambda>u. if u = t then t\<lparr>task_completed := \<not> task_completed t\<rparr> else u) (todos s)
         \<and> todos (toggleTaskCompletion toLowerCase (task_id t)
                    (toggleTaskCompletion toLowerCase (task_id t) s)) = todos s"
proof
  have same: "\<And>u. u \<in> set (todos s) \<Longrightarrow> task_id u = task_id t \<longleftrightarrow> u = t"
    using assms by (meson distinct_map inj_onD)
  show "todos (toggleTaskCompletion toLowerCase (task_id t) s)
           = map (\<lambda>u. if u = t then t\<lparr>task_completed := \<not> task_completed t\<rparr> else u) (todos s)"
    unfolding todos_toggle_map [OF assms(1)] using same by (auto intro: map_cong)
  let ?s = "toggleTaskCompletion toLowerCase (task_id t) s"
  have "distinct (map task_id (todos ?s))" using assms(1) by (simp add: ids_toggle)
  then have "todos (toggleTaskCompletion toLowerCase (task_id t) ?s)
      = map (\<lambda>u. if task_id u = task_id t then u\<lparr>task_completed := \<not> task_completed u\<rparr> else u) (todos ?s)"
    by (rule todos_toggle_map)
  also have "\<dots> = todos s"
    unfolding todos_toggle_map [OF assms(1)] by (simp add: map_idI o_def)
  finally show "todos (toggleTaskCompletion toLowerCase (task_id t) ?s) = todos s" .
qed

theorem toggle_flips_one_and_is_involution_witness:
  "distinct (map task_id (todos example_page))
   \<and> hd (todos example_page) \<in> set (todos example_page)
   \<and> todos (toggleTaskCompletion toLowerCase_ascii 1730000000000 example_page)
       = [\<lparr>task_id = 1730000000000, task_text = js ''Buy Milk'', task_completed = True\<rparr>,
          \<lparr>task_id = 1730000000001, task_text = js ''eggs'', task_completed = True\<rparr>]
   \<and> todos (toggleTaskCompletion toLowerCase_ascii 1730000000000
              (toggleTaskCompletion toLowerCase_ascii 1730000000000 example_page))
       = todos example_page"
proof -
  have d: "distinct (map task_id (todos example_page))" by (simp add: example_page_def)
  have m: "hd (todos example_page) \<in> set (todos example_page)" by (simp add: example_page_def)
  have i: "task_id (hd (todos example_page)) = 1730000000000" by (simp add: example_page_def)
  from toggle_flips_one_and_is_involution [OF d m, of toLowerCase_ascii] d m
  show ?thesis unfolding i by (simp add: example_page_def)
qed

text \<open>
  Claim C5. \<open>removeTask\<close> on an id that no task has leaves the collection unchanged. On an
  id that a task of a collection with unique ids has, the size drops by exactly one, no
  task with that id remains, and the other tasks keep their values and their order: the
  result is the collection with that one task taken out.
\<close>

theorem removeTask_spec:
  "(id' \<notin> task_id ` set (todos s) \<longrightarrow> todos (removeTask toLowerCase id' s) = todos s)
   \<and> (distinct (map task_id (todos s)) \<and> id' \<in> task_id ` set (todos s) \<longrightarrow>
        length (todos (removeTask toLowerCase id' s)) + 1 = length (todos s)
        \<and> id' \<notin> task_id ` set (todos (removeTask toLowerCase id' s))
        \<and> (\<exists>ys t zs. todos s = ys @ t # zs \<and> task_id t = id'
              \<and> todos (removeTask toLowerCase id' s) = ys @ zs))"
proof (intro conjI impI)
  assume "id' \<notin> task_id ` set (todos s)"
  then have "\<forall>u \<in> set (todos s). task_id u \<noteq> id'" by auto
  then show "todos (removeTask toLowerCase id' s) = todos s"
    by (simp add: todos_removeTask)
next
  assume a: "distinct (map task_id (todos s)) \<and> id' \<in> task_id ` set (todos s)"
  then obtain ys t zs where split: "todos s = ys @ t # zs" "task_id t = id'"
    by (metis imageE split_list)
  with a have "\<forall>y \<in> set ys. task_id y \<noteq> id'" "\<forall>z \<in> set zs. task_id z \<noteq> id'"
    by (auto simp: image_iff)
  then have rem: "todos (removeTask toLowerCase id' s) = ys @ zs"
    using split by (simp add: todos_removeTask)
  show "length (todos (removeTask toLowerCase id' s)) + 1 = length (todos s)"
    using rem split(1) by simp
  show "id' \<notin> task_id ` set (todos (removeTask toLowerCase id' s))"
    by (auto simp: todos_removeTask)
  show "\<exists>ys t zs. todos s = ys @ t # zs \<and> task_id t = id'
          \<and> todos (removeTask toLowerCase id' s) = ys @ zs"
    using rem split by blast
qed

theorem removeTask_spec_witness:
  "7 \<notin> task_id ` set (todos example_page)
   \<and> todos (removeTask toLowerCase_ascii 7 example_page) = todos example_page
   \<and> distinct (map task_id (todos example_page))
   \<and> 1730000000000 \<in> task_id ` set (todos example_page)
   \<and> length (todos (removeTask toLowerCase_ascii 1730000000000 example_page)) + 1 = 2
   \<and> 1730000000000 \<notin> task_id ` set (todos (removeTask toLowerCase_ascii 1730000000000 example_page))"
proof -
  have a: "7 \<notin> task_id ` set (todos example_page)" by (simp add: example_page_def)
  have d: "distinct (map task_id (todos example_page))
           \<and> 1730000000000 \<in> task_id ` set (todos example_page)"
    by (simp add: example_page_def)
  have l: "length (todos example_page) = 2" by (simp add: example_page_def)
  from removeTask_spec [of 7 example_page toLowerCase_ascii]
    removeTask_spec [of 1730000000000 example_page toLowerCase_ascii] a d l
  show ?thesis by simp
qed

subsection \<open>Search and markers\<close>

text \<open>\<open>includes_js\<close> is the substring relation.\<close>

lemma startsWith_iff: "startsWith s q \<longleftrightarrow> (\<exists>ss. s = q @ ss)"
  by (induction s q rule: startsWith.induct) auto

lemma includes_js_iff: "includes_js s q \<longleftrightarrow> (\<exists>ps ss. s = ps @ q @ ss)"
proof (induction s)
  case Nil
  then show ?case by (simp add: startsWith_iff)
next
  case (Cons c cs)
  show ?case
  proof
    assume "includes_js (c # cs) q"
    then consider "startsWith (c # cs) q" | "includes_js cs q" by auto
    then show "\<exists>ps ss. c # cs = ps @ q @ ss"
    proof cases
      case 1
      then obtain ss where "c # cs = q @ ss" by (auto simp: startsWith_iff)
      then have "c # cs = [] @ q @ ss" by simp
      then show ?thesis by blast
    next
      case 2
      with Cons.IH obtain ps ss where "cs = ps @ q @ ss" by blast
      then have "c # cs = (c # ps) @ q @ ss" by simp
      then show ?thesis by blast
    qed
  next
    assume "\<exists>ps ss. c # cs = ps @ q @ ss"
    then obtain ps ss where eq: "c # cs = ps @ q @ ss" by blast
    show "includes_js (c # cs) q"
    proof (cases ps)
      case Nil
      with eq have "startsWith (c # cs) q" by (auto simp: startsWith_iff)
      then show ?thesis by simp
    next
      case (Cons p ps')
      with eq have "cs = ps' @ q @ ss" by simp
      with Cons.IH have "includes_js cs q" by blast
      then show ?thesis by simp
    qed
  qed
qed

text \<open>The two markers of a rendered row.\<close>

lemma marker_distinct: "js ''hidden'' \<noteq> js ''completed''"
  by (simp add: js_def)

lemma hidden_marker:
  "js ''hidden'' \<in> set (li_classList (render_task lc q t)) \<longleftrightarrow> \<not> includes_js (lc (task_text t)) q"
  using marker_distinct by (auto simp: render_task_def Let_def classList_add_def)

lemma completed_marker:
  "js ''completed'' \<in> set (li_classList (render_task lc q t)) \<longleftrightarrow> task_completed t"
  using marker_distinct by (auto simp: render_task_def Let_def classList_add_def)

lemma includes_js_empty: "includes_js s []"
  by (cases s) simp_all

text \<open>
  Claim C7. Rendering marks as hidden exactly the rows of the tasks whose lower-cased text
  does not contain the lower-cased query as a substring; with the empty query (whose lower
  case is the empty string) no row is marked hidden.
\<close>

theorem hidden_rows_are_the_non_matching:
  assumes "i < length (todos s)"
  shows "(js ''hidden'' \<in> set (li_classList (taskList (renderTasks toLowerCase s) ! i))
            \<longleftrightarrow> \<not> (\<exists>ps ss. toLowerCase (task_text (todos s ! i)) = ps @ toLowerCase (searchInput s) @ ss))
         \<and> (searchInput s = [] \<and> toLowerCase [] = [] \<longrightarrow>
              js ''hidden'' \<notin> set (li_classList (taskList (renderTasks toLowerCase s) ! i)))"
  using assms by (auto simp: hidden_marker includes_js_iff [symmetric] includes_js_empty)

theorem hidden_rows_are_the_non_matching_witness:
  "0 < length (todos example_page) \<and> 1 < length (todos example_page)
   \<and> js ''hidden'' \<notin> set (li_classList (taskList (renderTasks toLowerCase_ascii example_page) ! 0))
   \<and> js ''hidden'' \<in> set (li_classList (taskList (renderTasks toLowerCase_ascii example_page) ! 1))
   \<and> searchInput (example_page\<lparr>searchInput := []\<rparr>) = [] \<and> toLowerCase_ascii [] = []
   \<and> js ''hidden'' \<notin> set (li_classList
         (taskList (renderTasks toLowerCase_ascii (example_page\<lparr>searchInput := []\<rparr>)) ! 1))"
proof -
  have l0: "0 < length (todos example_page)" and l1: "1 < length (todos example_page)"
    by (simp_all add: example_page_def)
  have l1': "1 < length (todos (example_page\<lparr>searchInput := []\<rparr>))"
    by (simp add: example_page_def)
  have q: "toLowerCase_ascii (searchInput example_page) = js ''milk''"
    by (simp add: example_page_def toLowerCase_ascii_def js_def)
  have t0: "toLowerCase_ascii (task_text (todos example_page ! 0)) = js ''buy '' @ js ''milk'' @ []"
    by (simp add: example_page_def toLowerCase_ascii_def js_def)
  have t1: "toLowerCase_ascii (task_text (todos example_page ! 1)) = js ''eggs''"
    by (simp add: example_page_def toLowerCase_ascii_def js_def)
  have "\<not> includes_js (js ''eggs'') (js ''milk'')" by (simp add: js_def)
  then have n1: "\<not> (\<exists>ps ss. js ''eggs'' = ps @ js ''milk'' @ ss)"
    by (simp add: includes_js_iff)
  have e: "toLowerCase_ascii [] = []" by (simp add: toLowerCase_ascii_def)
  from hidden_rows_are_the_non_matching [OF l0, of toLowerCase_ascii]
  have r0: "js ''hidden'' \<notin> set (li_classList (taskList (renderTasks toLowerCase_ascii example_page) ! 0))"
    unfolding q t0 by blast
  from hidden_rows_are_the_non_matching [OF l1, of toLowerCase_ascii]
  have r1: "js ''hidden'' \<in> set (li_classList (taskList (renderTasks toLowerCase_ascii example_page) ! 1))"
    unfolding q t1 using n1 by blast
  from hidden_rows_are_the_non_matching [OF l1', of toLowerCase_ascii, THEN conjunct2] e
  have r2: "js ''hidden'' \<notin> set (li_classList
         (taskList (renderTasks toLowerCase_ascii (example_page\<lparr>searchInput := []\<rparr>)) ! 1))"
    by simp
  from l0 l1 r0 r1 r2 e show ?thesis by simp
qed

text \<open>
  Claim C8. The rendered list has exactly one row per task, hidden or not, so its length is
  the size of the collection. On each row the two markers are independent: the row carries
  the completed marker exactly when its task is completed, and the hidden marker exactly
  when its task does not match the query, whatever the other marker is.
\<close>

theorem one_row_per_task_with_independent_markers:
  "length (taskList (renderTasks toLowerCase s)) = length (todos s)
   \<and> (\<forall>i < length (todos s).
        (js ''completed'' \<in> set (li_classList (taskList (renderTasks toLowerCase s) ! i))
           \<longleftrightarrow> task_completed (todos s ! i))
        \<and> (js ''hidden'' \<in> set (li_classList (taskList (renderTasks toLowerCase s) ! i))
           \<longleftrightarrow> \<not> includes_js (toLowerCase (task_text (todos s ! i))) (toLowerCase (searchInput s))))"
  by (simp add: hidden_marker completed_marker)

theorem one_row_per_task_with_independent_markers_witness:
  "length (taskList (renderTasks toLowerCase_ascii example_page)) = 2
   \<and> 1 < length (todos example_page)
   \<and> js ''completed'' \<in> set (li_classList (taskList (renderTasks toLowerCase_ascii example_page) ! 1))
   \<and> js ''hidden'' \<in> set (li_classList (taskList (renderTasks toLowerCase_ascii example_page) ! 1))
   \<and> js ''completed'' \<notin> set (li_classList (taskList (renderTasks toLowerCase_ascii example_page) ! 0))
   \<and> js ''hidden'' \<notin> set (li_classList (taskList (renderTasks toLowerCase_ascii example_page) ! 0))"
proof -
  have l: "length (todos example_page) = 2" by (simp add: example_page_def)
  have c: "task_completed (todos example_page ! 1)" "\<not> task_completed (todos example_page ! 0)"
    by (simp_all add: example_page_def)
  have h: "\<not> includes_js (toLowerCase_ascii (task_text (todos example_page ! 1)))
               (toLowerCase_ascii (searchInput example_page))"
    "includes_js (toLowerCase_ascii (task_text (todos example_page ! 0)))
               (toLowerCase_ascii (searchInput example_page))"
    by (simp_all add: example_page_def toLowerCase_ascii_def js_def)
  from one_row_per_task_with_independent_markers [of toLowerCase_ascii example_page] l c h
  show ?thesis by simp
qed

text \<open>
  Claim C10. On an id that no task has, \<open>toggleTaskCompletion\<close> does nothing at all: the page,
  with its storage slot and its rendered list, is the page it was. \<open>removeTask\<close> on such an
  id leaves the collection unchanged but still saves and renders: afterwards the storage
  slot holds the serialization of the collection and the list holds its rows, whatever
  they held before.
\<close>

theorem absent_id_toggle_silent_remove_writes:
  assumes "id' \<notin> task_id ` set (todos s)"
  shows "toggleTaskCompletion toLowerCase id' s = s
         \<and> removeTask toLowerCase id' s = renderTasks toLowerCase (saveTasks s)
         \<and> todos (removeTask toLowerCase id' s) = todos s
         \<and> localStorage (removeTask toLowerCase id' s) STORAGE_KEY = Some (JSON_stringify (todos s))
         \<and> taskList (removeTask toLowerCase id' s)
             = map (render_task toLowerCase (toLowerCase (searchInput s))) (todos s)"
proof -
  from assms have "\<forall>u \<in> set (todos s). task_id u \<noteq> id'" by auto
  then have f: "filter (\<lambda>task. task_id task \<noteq> id') (todos s) = todos s" by simp
  have "s\<lparr>todos := todos s\<rparr> = s" by simp
  then have r: "removeTask toLowerCase id' s = renderTasks toLowerCase (saveTasks s)"
    by (simp add: removeTask_def Let_def f)
  show ?thesis using assms by (simp add: todos_toggle_absent r)
qed

theorem absent_id_toggle_silent_remove_writes_witness:
  "7 \<notin> task_id ` set (todos example_page)
   \<and> localStorage (toggleTaskCompletion toLowerCase_ascii 7 example_page) STORAGE_KEY = None
   \<and> taskList (toggleTaskCompletion toLowerCase_ascii 7 example_page) = []
   \<and> localStorage (removeTask toLowerCase_ascii 7 example_page) STORAGE_KEY
       = Some (JSON_stringify (todos example_page))
   \<and> length (taskList (removeTask toLowerCase_ascii 7 example_page)) = 2"
proof -
  have a: "7 \<notin> task_id ` set (todos example_page)" by (simp add: example_page_def)
  have l: "length (todos example_page) = 2" "localStorage example_page STORAGE_KEY = None"
    "taskList example_page = []"
    by (simp_all add: example_page_def)
  from absent_id_toggle_silent_remove_writes [OF a, of toLowerCase_ascii] a l
  show ?thesis by simp
qed

subsection \<open>Unique ids\<close>

text \<open>
  Claim C9 says that every successful add gives the new task an id that no task of the
  collection has. \<open>addTask\<close> takes the id from the clock and compares it with nothing: on
  the example page, whose ids are unique, an add at the time that is the id of the first
  task yields two tasks with that id.
\<close>

theorem addTask_duplicate_id_counterexample:
  "distinct (map task_id (todos example_page))
   \<and> trim (taskInput example_page) \<noteq> []
   \<and> \<not> distinct (map task_id (todos (addTask toLowerCase_ascii 1730000000000 example_page)))"
  by (simp add: todos_addTask example_page_def trim_def js_def is_white_space_def)

text \<open>
  Claim C9, amended. Unique ids are preserved by \<open>toggleTaskCompletion\<close> and by
  \<open>removeTask\<close>, and by \<open>addTask\<close> whenever the clock value it assigns is not the id of a
  task already in the collection; a successful add then gives the new task an id distinct
  from every id present.
\<close>

theorem unique_ids_preserved:
  assumes "distinct (map task_id (todos s))"
  shows "distinct (map task_id (todos (toggleTaskCompletion toLowerCase id' s)))
         \<and> distinct (map task_id (todos (removeTask toLowerCase id' s)))
         \<and> (now \<notin> task_id ` set (todos s) \<longrightarrow>
              distinct (map task_id (todos (addTask toLowerCase now s)))
              \<and> (trim (taskInput s) \<noteq> [] \<longrightarrow>
                   task_id (last (todos (addTask toLowerCase now s))) = now
                   \<and> task_id (last (todos (addTask toLowerCase now s))) \<notin> task_id ` set (todos s)))"
  using assms by (simp add: ids_toggle todos_removeTask todos_addTask distinct_map_filter)

theorem unique_ids_preserved_witness:
  "distinct (map task_id (todos example_page))
   \<and> 1730000000002 \<notin> task_id ` set (todos example_page)
   \<and> trim (taskInput example_page) \<noteq> []
   \<and> distinct (map task_id (todos (addTask toLowerCase_ascii 1730000000002 example_page)))
   \<and> task_id (last (todos (addTask toLowerCase_ascii 1730000000002 example_page))) = 1730000000002
   \<and> distinct (map task_id (todos (toggleTaskCompletion toLowerCase_ascii 1730000000000 example_page)))
   \<and> distinct (map task_id (todos (removeTask toLowerCase_ascii 1730000000000 example_page)))"
proof -
  have d: "distinct (map task_id (todos example_page))" by (simp add: example_page_def)
  have f: "1730000000002 \<notin> task_id ` set (todos example_page)" by (simp add: example_page_def)
  have t: "trim (taskInput example_page) \<noteq> []"
    by (simp add: example_page_def trim_def js_def is_white_space_def)
  from unique_ids_preserved [OF d, of toLowerCase_ascii 1730000000000 1730000000002] d f t
  show ?thesis by simp
qed

section \<open>The parser consumes its input\<close>

text \<open>
  Every parsing function that succeeds returns a proper suffix of its input, so the result
  of \<open>parse_value\<close> does not depend on its first argument once that argument is at least
  the length of the input: \<open>JSON_parse\<close> never fails for lack of it.
\<close>

subsection \<open>Every successful parse returns a proper suffix\<close>

lemma length_skip_ws: "length (skip_ws s) \<le> length s"
  by (simp add: skip_ws_def length_dropWhile_le)

lemma read_escape_shorter: "read_escape s = Some (u, r) \<Longrightarrow> length r < length s"
  by (auto simp: read_escape_def split: list.splits if_splits option.splits)

lemma parse_chars_shorter: "parse_chars s = Some (str, r) \<Longrightarrow> length r < length s"
proof (induction s arbitrary: str r rule: parse_chars.induct)
  case 1
  then show ?case by simp
next
  case (2 c cs)
  show ?case
  proof (cases "c = 0x22")
    case True
    with "2.prems" show ?thesis by simp
  next
    case q: False
    show ?thesis
    proof (cases "c = 0x5C")
      case True
      with q "2.prems" obtain u r' str' where
        e: "read_escape cs = Some (u, r')" and p: "parse_chars r' = Some (str', r)"
        by (auto split: option.splits)
      from "2.IH"(1) [OF q True e refl p] read_escape_shorter [OF e] show ?thesis by simp
    next
      case b: False
      with q "2.prems" have c: "\<not> c < 0x20" by (auto split: if_splits)
      with q b "2.prems" obtain str' where p: "parse_chars cs = Some (str', r)"
        by (auto split: option.splits)
      from "2.IH"(2) [OF q b c p] show ?thesis by simp
    qed
  qed
qed

lemma parse_int_part_shorter: "parse_int_part s = Some (ip, r) \<Longrightarrow> length r < length s"
  by (auto simp: parse_int_part_def length_dropWhile_le le_imp_less_Suc
      split: list.splits if_splits)

lemma parse_fraction_shorter: "parse_fraction s = Some (fp, r) \<Longrightarrow> length r \<le> length s"
  by (auto simp: parse_fraction_def length_dropWhile_le le_SucI split: list.splits if_splits)

lemma parse_sign_shorter: "parse_sign s = (neg, r) \<Longrightarrow> length r \<le> length s"
  by (auto simp: parse_sign_def split: list.splits if_splits)

lemma parse_exponent_shorter: "parse_exponent s = Some (e, r) \<Longrightarrow> length r \<le> length s"
proof -
  assume a: "parse_exponent s = Some (e, r)"
  show ?thesis
  proof (cases s)
    case Nil
    with a show ?thesis by (simp add: parse_exponent_def)
  next
    case (Cons c cs)
    obtain neg r' where sg: "parse_sign cs = (neg, r')" by (cases "parse_sign cs")
    have "length (dropWhile is_digit r') \<le> length cs"
      using parse_sign_shorter [OF sg] length_dropWhile_le [of is_digit r'] by simp
    with a Cons sg show ?thesis
      by (auto simp: parse_exponent_def split: if_splits)
  qed
qed

lemma parse_number_shorter: "parse_number s = Some (x, r) \<Longrightarrow> length r < length s"
proof -
  assume a: "parse_number s = Some (x, r)"
  define s1 where "s1 = snd (case s of [] \<Rightarrow> (False, s) | c # cs \<Rightarrow> if c = 0x2D then (True, cs) else (False, s))"
  have l1: "length s1 \<le> length s" by (auto simp: s1_def split: list.splits)
  from a obtain ip s2 fp s3 e where
    "parse_int_part s1 = Some (ip, s2)" "parse_fraction s2 = Some (fp, s3)"
    "parse_exponent s3 = Some (e, r)"
    by (auto simp: parse_number_def s1_def split: option.splits list.splits if_splits prod.splits)
  then show ?thesis
    using l1 parse_int_part_shorter parse_fraction_shorter parse_exponent_shorter
    by (meson le_trans less_le_trans not_less order.strict_trans2)
qed

lemma skip_ws_Cons_shorter: "skip_ws s = d # ds \<Longrightarrow> length ds < length s"
  using length_skip_ws [of s] by simp

lemma parse_shorter:
  "parse_value n s = Some (v, r) \<Longrightarrow> length r < length s"
  "parse_elements n s = Some (vs, r) \<Longrightarrow> length r < length s"
  "parse_members n s = Some (ms, r) \<Longrightarrow> length r < length s"
proof (induction n s and n s and n s arbitrary: v r and vs r and ms r
    rule: parse_value_parse_elements_parse_members.induct)
  case (1 s)
  then show ?case by simp
next
  case (2 n)
  then show ?case by simp
next
  case (3 n c cs)
  show ?case
  proof (cases "c = 0x7B")
    case True
    with "3.prems" obtain d ds where sk: "skip_ws cs = d # ds"
      by (auto split: list.splits)
    show ?thesis
    proof (cases "d = 0x7D")
      case True
      with "3.prems" \<open>c = 0x7B\<close> sk skip_ws_Cons_shorter [OF sk] show ?thesis by simp
    next
      case False
      with "3.prems" \<open>c = 0x7B\<close> sk obtain ms where
        m: "parse_members n (d # ds) = Some (ms, r)"
        by (auto split: option.splits)
      from "3.IH"(1) [OF \<open>c = 0x7B\<close> sk False m] length_skip_ws [of cs] sk
      show ?thesis by simp
    qed
  next
    case nb: False
    show ?thesis
    proof (cases "c = 0x5B")
      case True
      with nb "3.prems" obtain d ds where sk: "skip_ws cs = d # ds"
        by (auto split: list.splits)
      show ?thesis
      proof (cases "d = 0x5D")
        case True
        with "3.prems" nb \<open>c = 0x5B\<close> sk skip_ws_Cons_shorter [OF sk] show ?thesis by simp
      next
        case False
        with "3.prems" nb \<open>c = 0x5B\<close> sk obtain vs where
          m: "parse_elements n (d # ds) = Some (vs, r)"
          by (auto split: option.splits)
        from "3.IH"(2) [OF nb \<open>c = 0x5B\<close> sk False m] length_skip_ws [of cs] sk
        show ?thesis by simp
      qed
    next
      case na: False
      with nb "3.prems" show ?thesis
        by (auto split: if_splits option.splits
            dest!: parse_chars_shorter parse_number_shorter)
    qed
  qed
next
  case (4 s)
  then show ?case by simp
next
  case (5 n s)
  from "5.prems" obtain v r1 where v: "parse_value (Suc n) s = Some (v, r1)"
    by (auto split: option.splits)
  from "5.prems" v obtain d ds where sk: "skip_ws r1 = d # ds"
    by (auto split: list.splits)
  have l1: "length r1 < length s" by (rule "5.IH"(1) [OF v])
  have l2: "length ds < length r1" by (rule skip_ws_Cons_shorter [OF sk])
  show ?case
  proof (cases "d = 0x2C")
    case True
    with "5.prems" v sk obtain vs' where
      e: "parse_elements n (skip_ws ds) = Some (vs', r)"
      by (auto split: option.splits)
    from "5.IH"(2) [OF v refl sk True e] length_skip_ws [of ds] l1 l2 show ?thesis by simp
  next
    case False
    with "5.prems" v sk l1 l2 show ?thesis by (auto split: if_splits)
  qed
next
  case (6 s)
  then show ?case by simp
next
  case (7 n)
  then show ?case by simp
next
  case (8 n c cs)
  from "8.prems" have q: "c = 0x22" by (auto split: if_splits)
  with "8.prems" obtain k r1 where k: "parse_chars cs = Some (k, r1)"
    by (auto split: option.splits)
  with "8.prems" q obtain d ds where sk: "skip_ws r1 = d # ds"
    by (auto split: list.splits)
  with "8.prems" q k have col: "d = 0x3A" by (auto split: if_splits)
  with "8.prems" q k sk obtain v r2 where v: "parse_value n (skip_ws ds) = Some (v, r2)"
    by (auto split: option.splits)
  with "8.prems" q k sk col obtain e es where sk2: "skip_ws r2 = e # es"
    by (auto split: list.splits)
  have l1: "length r1 < length cs" by (rule parse_chars_shorter [OF k])
  have l2: "length ds < length r1" by (rule skip_ws_Cons_shorter [OF sk])
  have l3: "length r2 < length (skip_ws ds)" by (rule "8.IH"(1) [OF q k refl sk col v])
  have l4: "length es < length r2" by (rule skip_ws_Cons_shorter [OF sk2])
  show ?case
  proof (cases "e = 0x2C")
    case True
    with "8.prems" q k sk col v sk2 obtain ms' where
      m: "parse_members n (skip_ws es) = Some (ms', r)"
      by (auto split: option.splits)
    from "8.IH"(2) [OF q k refl sk col v refl sk2 True m]
      length_skip_ws [of es] length_skip_ws [of ds] l1 l2 l3 l4
    show ?thesis by simp
  next
    case False
    with "8.prems" q k sk col v sk2 length_skip_ws [of ds] l1 l2 l3 l4 show ?thesis
      by (auto split: if_splits)
  qed
qed

subsection \<open>The bound on the recursion is never what fails\<close>

lemma parse_fuel:
  "length s \<le> n \<Longrightarrow> length s \<le> m \<Longrightarrow> parse_value n s = parse_value m s"
  "length s \<le> n \<Longrightarrow> length s \<le> m \<Longrightarrow> parse_elements n s = parse_elements m s"
  "length s \<le> n \<Longrightarrow> length s \<le> m \<Longrightarrow> parse_members n s = parse_members m s"
proof (induction n s and n s and n s arbitrary: m and m and m
    rule: parse_value_parse_elements_parse_members.induct)
  case (1 s)
  then show ?case by (cases m) simp_all
next
  case (2 n)
  then show ?case by (cases m) simp_all
next
  case (3 n c cs)
  from "3.prems" obtain m' where m: "m = Suc m'" by (cases m) auto
  have mem: "parse_members n (d # ds) = parse_members m' (d # ds)"
    if "c = 0x7B" "skip_ws cs = d # ds" "d \<noteq> 0x7D" for d ds
    using "3.IH"(1) [OF that, of m'] "3.prems" m length_skip_ws [of cs] that(2) by simp
  have elt: "parse_elements n (d # ds) = parse_elements m' (d # ds)"
    if "c \<noteq> 0x7B" "c = 0x5B" "skip_ws cs = d # ds" "d \<noteq> 0x5D" for d ds
    using "3.IH"(2) [OF that, of m'] "3.prems" m length_skip_ws [of cs] that(3) by simp
  show ?case
  proof (cases "c = 0x7B")
    case True
    then show ?thesis unfolding m using mem by (simp split: list.splits)
  next
    case nb: False
    show ?thesis
    proof (cases "c = 0x5B")
      case True
      then show ?thesis unfolding m using nb elt by (simp split: list.splits)
    next
      case False
      with nb show ?thesis unfolding m by simp
    qed
  qed
next
  case (4 s)
  then show ?case by (cases m) simp_all
next
  case (5 n s)
  show ?case
  proof (cases m)
    case 0
    with "5.prems" show ?thesis by simp
  next
    case (Suc m')
    have val: "parse_value (Suc n) s = parse_value (Suc m') s"
      using "5.IH"(1) [of "Suc m'"] "5.prems" Suc by simp
    have elt: "parse_elements n (skip_ws ds) = parse_elements m' (skip_ws ds)"
      if "parse_value (Suc n) s = Some (v, r1)" "skip_ws r1 = d # ds" "d = 0x2C" for v r1 d ds
    proof -
      have "length r1 < length s" by (rule parse_shorter(1) [OF that(1)])
      moreover have "length ds < length r1" by (rule skip_ws_Cons_shorter [OF that(2)])
      ultimately have "length (skip_ws ds) \<le> n" "length (skip_ws ds) \<le> m'"
        using "5.prems" Suc length_skip_ws [of ds] by simp_all
      then show ?thesis using "5.IH"(2) [OF that(1) refl that(2,3), of m'] by simp
    qed
    show ?thesis
      unfolding Suc parse_elements.simps val [symmetric]
      using elt by (auto split: option.splits list.splits)
  qed
next
  case (6 s)
  then show ?case by (cases m) simp_all
next
  case (7 n)
  then show ?case by (cases m) simp_all
next
  case (8 n c cs)
  from "8.prems" obtain m' where m: "m = Suc m'" by (cases m) auto
  have val: "parse_value n (skip_ws ds) = parse_value m' (skip_ws ds)"
    if "c = 0x22" "parse_chars cs = Some (k, r1)" "skip_ws r1 = d # ds" "d = 0x3A" for k r1 d ds
  proof -
    have "length r1 < length cs" by (rule parse_chars_shorter [OF that(2)])
    moreover have "length ds < length r1" by (rule skip_ws_Cons_shorter [OF that(3)])
    ultimately have "length (skip_ws ds) \<le> n" "length (skip_ws ds) \<le> m'"
      using "8.prems" m length_skip_ws [of ds] by simp_all
    then show ?thesis using "8.IH"(1) [OF that(1,2) refl that(3,4), of m'] by simp
  qed
  have mem: "parse_members n (skip_ws es) = parse_members m' (skip_ws es)"
    if "c = 0x22" "parse_chars cs = Some (k, r1)" "skip_ws r1 = d # ds" "d = 0x3A"
      "parse_value n (skip_ws ds) = Some (v, r2)" "skip_ws r2 = e # es" "e = 0x2C"
    for k r1 d ds v r2 e es
  proof -
    have "length r1 < length cs" by (rule parse_chars_shorter [OF that(2)])
    moreover have "length ds < length r1" by (rule skip_ws_Cons_shorter [OF that(3)])
    moreover have "length r2 < length (skip_ws ds)" by (rule parse_shorter(1) [OF that(5)])
    moreover have "length es < length r2" by (rule skip_ws_Cons_shorter [OF that(6)])
    ultimately have "length (skip_ws es) \<le> n" "length (skip_ws es) \<le> m'"
      using "8.prems" m length_skip_ws [of ds] length_skip_ws [of es] by simp_all
    then show ?thesis using "8.IH"(2) [OF that(1,2) refl that(3,4,5) refl that(6,7), of m'] by simp
  qed
  show ?case
  proof (cases "c = 0x22")
    case False
    then show ?thesis unfolding m by simp
  next
    case True
    show ?thesis
    proof (cases "parse_chars cs")
      case None
      with True show ?thesis unfolding m by simp
    next
      case (Some a)
      obtain k r1 where a: "a = (k, r1)" by (cases a)
      show ?thesis
      proof (cases "skip_ws r1")
        case Nil
        with True Some a show ?thesis unfolding m by simp
      next
        case (Cons d ds)
        show ?thesis
        proof (cases "d = 0x3A")
          case False
          with True Some a Cons show ?thesis unfolding m by simp
        next
          case col: True
          note v = val [OF True Some [unfolded a] Cons col]
          show ?thesis
          proof (cases "parse_value n (skip_ws ds)")
            case None
            with True Some a Cons col v show ?thesis unfolding m by simp
          next
            case (Some b)
            obtain w r2 where b: "b = (w, r2)" by (cases b)
            note mm = mem [OF True \<open>parse_chars cs = Some a\<close> [unfolded a] Cons col Some [unfolded b]]
            from True \<open>parse_chars cs = Some a\<close> a Cons col v Some b mm show ?thesis
              unfolding m by (auto split: list.splits option.splits)
          qed
        qed
      qed
    qed
  qed
qed

lemma parse_value_fuel: "length s \<le> n \<Longrightarrow> parse_value n s = parse_value (length s) s"
  by (rule parse_fuel(1)) simp_all

lemma JSON_parse_fuel:
  "length s \<le> n \<Longrightarrow>
     JSON_parse s = (case parse_value n (skip_ws s) of
                       None \<Rightarrow> Inl SyntaxError
                     | Some (v, r) \<Rightarrow> if skip_ws r = [] then Inr v else Inl SyntaxError)"
  unfolding JSON_parse_def
  using parse_fuel(1) [of "skip_ws s" "length s" n] length_skip_ws [of s] by simp

section \<open>Serialization round trip\<close>

declare parse_value.simps [simp del] parse_elements.simps [simp del] parse_members.simps [simp del]

subsection \<open>Strings\<close>

text \<open>
  A quoted string reads back as the string: each escape of \<open>quote_unit\<close> is undone by
  \<open>read_escape\<close>, and the four hexadecimal digits of \<open>unicode_escape\<close> recombine to the code
  unit.
\<close>

lemma unat_small: "n < 65536 \<Longrightarrow> unat (of_nat n :: code_unit) = n"
  by (simp add: unat_of_nat)

lemma unat_code_unit_less: "unat (c :: code_unit) < 65536"
proof -
  have "unat c < 2 ^ LENGTH(16)" by (rule unsigned_less)
  then show ?thesis by simp
qed

lemma hex_value_hex_digit: "n < 16 \<Longrightarrow> hex_value (hex_digit n) = Some n"
  by (auto simp: hex_value_def hex_digit_def word_le_nat_alt unat_small simp del: of_nat_add)

lemma hex_recombine:
  fixes c :: code_unit
  shows "of_nat (((unat c div 4096 * 16 + unat c div 256 mod 16) * 16 + unat c div 16 mod 16) * 16
           + unat c mod 16) = c"
proof -
  define n where "n = unat c"
  have a: "n div 256 = n div 16 div 16" and b: "n div 4096 = n div 256 div 16"
    by (simp_all add: div_mult2_eq [symmetric])
  have "n div 4096 * 16 + n div 256 mod 16 = n div 256"
    unfolding b by (rule div_mult_mod_eq)
  moreover have "n div 256 * 16 + n div 16 mod 16 = n div 16"
    unfolding a by (rule div_mult_mod_eq)
  moreover have "n div 16 * 16 + n mod 16 = n"
    by (rule div_mult_mod_eq)
  ultimately have "((n div 4096 * 16 + n div 256 mod 16) * 16 + n div 16 mod 16) * 16 + n mod 16 = n"
    by simp
  then show ?thesis unfolding n_def by simp
qed

lemma read_escape_unicode:
  "read_escape (tl (unicode_escape c) @ xs) = Some (c, xs)"
proof -
  have b: "unat c div 4096 < 16" using unat_code_unit_less [of c] by simp
  have "read_escape (tl (unicode_escape c) @ xs)
      = Some (of_nat (((unat c div 4096 * 16 + unat c div 256 mod 16) * 16 + unat c div 16 mod 16) * 16
           + unat c mod 16), xs)"
    by (simp add: unicode_escape_def read_escape_def hex_value_hex_digit b
             del: of_nat_add of_nat_mult)
  then show ?thesis by (simp only: hex_recombine)
qed

lemma parse_chars_quote_unit:
  "parse_chars (quote_unit c @ xs)
     = (case parse_chars xs of None \<Rightarrow> None | Some (str, r) \<Rightarrow> Some (c # str, r))"
proof -
  have esc: "parse_chars (unicode_escape c @ xs)
     = (case parse_chars xs of None \<Rightarrow> None | Some (str, r) \<Rightarrow> Some (c # str, r))"
  proof -
    have "parse_chars (0x5C # (tl (unicode_escape c) @ xs))
       = (case parse_chars xs of None \<Rightarrow> None | Some (str, r) \<Rightarrow> Some (c # str, r))"
      by (simp add: read_escape_unicode)
    moreover have "unicode_escape c @ xs = 0x5C # (tl (unicode_escape c) @ xs)"
      by (simp add: unicode_escape_def)
    ultimately show ?thesis by (simp only:)
  qed
  show ?thesis
    unfolding quote_unit_def
    by (auto simp: esc read_escape_def)
qed

lemma surrogate_plain:
  "is_leading_surrogate c \<or> is_trailing_surrogate c \<Longrightarrow> c \<noteq> 0x22 \<and> c \<noteq> 0x5C \<and> \<not> c < 0x20"
  by (auto simp: is_leading_surrogate_def is_trailing_surrogate_def word_le_nat_alt word_less_nat_alt)

lemma parse_chars_quote_units:
  "parse_chars (quote_units s @ 0x22 # rest) = Some (s, rest)"
proof (induction s rule: quote_units.induct)
  case 1
  show ?case by simp
next
  case (2 c)
  show ?case by (simp add: parse_chars_quote_unit del: parse_chars.simps) simp
next
  case (3 c d cs)
  show ?case
  proof (cases "is_leading_surrogate c \<and> is_trailing_surrogate d")
    case True
    then have "parse_chars (c # d # quote_units cs @ 0x22 # rest) = Some (c # d # cs, rest)"
      using surrogate_plain [of c] surrogate_plain [of d] "3.IH"(1) by simp
    with True show ?thesis by simp
  next
    case False
    then have "quote_units (c # d # cs) = quote_unit c @ quote_units (d # cs)" by auto
    then have "parse_chars (quote_units (c # d # cs) @ 0x22 # rest)
        = parse_chars (quote_unit c @ (quote_units (d # cs) @ 0x22 # rest))" by simp
    also have "\<dots> = Some (c # d # cs, rest)"
      unfolding parse_chars_quote_unit using "3.IH"(2) [OF False] by simp
    finally show ?thesis .
  qed
qed

subsection \<open>Numbers\<close>

text \<open>
  The decimal digits of an integer read back as that integer; they start with the digit
  zero only for zero itself, so the parser's rule for a leading zero does not cut them.
\<close>

lemma is_digit_of_nat: "n < 10 \<Longrightarrow> is_digit (of_nat (48 + n))"
  by (simp add: is_digit_def word_le_nat_alt unat_small del: of_nat_add)

lemma digit_value_of_nat: "n < 10 \<Longrightarrow> digit_value (of_nat (48 + n)) = n"
  by (simp add: digit_value_def unat_small del: of_nat_add)

lemma digits_are_digits: "d \<in> set (digits n) \<Longrightarrow> is_digit d"
proof (induction n rule: digits.induct)
  case (1 n)
  show ?case
  proof (cases "n < 10")
    case True
    with "1.prems" show ?thesis by (simp add: digits.simps [of n] is_digit_of_nat del: of_nat_add)
  next
    case False
    with "1.prems" "1.IH" show ?thesis
      by (auto simp: digits.simps [of n] is_digit_of_nat simp del: of_nat_add)
  qed
qed

lemma digits_not_Nil: "digits n \<noteq> []"
  by (simp add: digits.simps [of n])

lemma digits_value_snoc: "digits_value (ds @ [d]) = 10 * digits_value ds + digit_value d"
  by (simp add: digits_value_def)

lemma digits_value_digits: "digits_value (digits n) = n"
proof (induction n rule: digits.induct)
  case (1 n)
  show ?case
  proof (cases "n < 10")
    case True
    then show ?thesis
      by (simp add: digits.simps [of n] digits_value_def digit_value_of_nat del: of_nat_add)
  next
    case False
    with "1.IH" show ?thesis
      by (simp add: digits.simps [of n] digits_value_snoc digit_value_of_nat del: of_nat_add)
  qed
qed

lemma digits_leading_zero: "hd (digits n) = 0x30 \<Longrightarrow> n = 0"
proof (induction n rule: digits.induct)
  case (1 n)
  show ?case
  proof (cases "n < 10")
    case True
    with "1.prems" have "(of_nat (48 + n) :: code_unit) = 0x30"
      by (simp add: digits.simps [of n] del: of_nat_add)
    then have "unat (of_nat (48 + n) :: code_unit) = unat (0x30 :: code_unit)" by (simp only:)
    with True show ?thesis by (simp add: unat_small del: of_nat_add)
  next
    case False
    with "1.prems" have "hd (digits (n div 10)) = 0x30"
      by (simp add: digits.simps [of n] digits_not_Nil)
    with "1.IH" False have "n div 10 = 0" by simp
    with False show ?thesis by simp
  qed
qed

lemma takeWhile_digits:
  "\<not> is_digit c \<Longrightarrow> takeWhile is_digit (digits n @ c # r) = digits n"
  by (simp add: takeWhile_append2 digits_are_digits)

lemma dropWhile_digits:
  "\<not> is_digit c \<Longrightarrow> dropWhile is_digit (digits n @ c # r) = c # r"
  by (simp add: dropWhile_append2 digits_are_digits)

lemma parse_int_part_digits:
  assumes "\<not> is_digit c"
  shows "parse_int_part (digits n @ c # r) = Some (digits n, c # r)"
proof (cases "digits n")
  case Nil
  then show ?thesis by (simp add: digits_not_Nil)
next
  case (Cons d ds)
  have dig: "is_digit d" using digits_are_digits [of d n] Cons by simp
  show ?thesis
  proof (cases "d = 0x30")
    case True
    with Cons have "n = 0" using digits_leading_zero [of n] by simp
    then have "digits n = [0x30]" by (simp add: digits.simps [of 0])
    then show ?thesis by (simp add: parse_int_part_def)
  next
    case False
    have "parse_int_part (d # (ds @ c # r))
        = Some (takeWhile is_digit (d # (ds @ c # r)), dropWhile is_digit (d # (ds @ c # r)))"
      using False dig by (simp add: parse_int_part_def)
    also have "d # (ds @ c # r) = digits n @ c # r" using Cons by simp
    finally show ?thesis using assms by (simp add: takeWhile_digits dropWhile_digits)
  qed
qed

lemma parse_number_nat:
  "parse_int_part (digits n @ 0x2C # r) = Some (digits n, 0x2C # r)"
  by (rule parse_int_part_digits) (simp add: is_digit_def)

lemma parse_number_toString:
  "parse_number (Number_toString i @ 0x2C # r) = Some (of_int i, 0x2C # r)"
proof (cases "i < 0")
  case True
  then have "parse_number (0x2D # digits (nat (- i)) @ 0x2C # r) = Some (- of_nat (nat (- i)), 0x2C # r)"
    by (simp add: parse_number_def parse_number_nat parse_fraction_def parse_exponent_def
          digits_value_digits)
  also have "- of_nat (nat (- i)) = (of_int i :: rat)" using True by simp
  finally show ?thesis using True by (simp add: Number_toString_def)
next
  case False
  obtain d ds where ds: "digits (nat i) = d # ds" using digits_not_Nil [of "nat i"] by (cases "digits (nat i)") auto
  have "is_digit d" using digits_are_digits [of d "nat i"] ds by simp
  then have "d \<noteq> 0x2D" by (auto simp: is_digit_def)
  then have "parse_number (digits (nat i) @ 0x2C # r) = Some (of_nat (nat i), 0x2C # r)"
    using parse_number_nat [of "nat i" r] ds
    by (simp add: parse_number_def parse_fraction_def parse_exponent_def
          digits_value_digits [of "nat i", unfolded ds])
  also have "of_nat (nat i) = (of_int i :: rat)" using False by simp
  finally show ?thesis using False by (simp add: Number_toString_def)
qed

subsection \<open>Task objects and arrays\<close>

text \<open>
  The parser on the text of a task object, property by property, and on the text of the
  array.
\<close>

lemma skip_ws_Cons: "\<not> is_json_ws c \<Longrightarrow> skip_ws (c # cs) = c # cs"
  by (simp add: skip_ws_def)

lemma Number_toString_head:
  "\<exists>c cs. Number_toString i = c # cs \<and> (c = 0x2D \<or> is_digit c)"
proof (cases "i < 0")
  case True
  then show ?thesis by (simp add: Number_toString_def)
next
  case False
  obtain d ds where ds: "digits (nat i) = d # ds"
    using digits_not_Nil [of "nat i"] by (cases "digits (nat i)") auto
  then have "is_digit d" using digits_are_digits [of d "nat i"] by simp
  with ds False show ?thesis by (simp add: Number_toString_def)
qed

lemma parse_value_number:
  "parse_value (Suc n) (Number_toString i @ 0x2C # r) = Some (JNumber (of_int i), 0x2C # r)"
proof -
  obtain c cs where h: "Number_toString i = c # cs" "c = 0x2D \<or> is_digit c"
    using Number_toString_head by blast
  then have ne: "c \<noteq> 0x7B" "c \<noteq> 0x5B" "c \<noteq> 0x22"
    by (auto simp: is_digit_def)
  have "parse_value (Suc n) (c # (cs @ 0x2C # r))
      = (case parse_number (c # (cs @ 0x2C # r)) of None \<Rightarrow> None | Some (x, r) \<Rightarrow> Some (JNumber x, r))"
    using ne h(2) by (simp add: parse_value.simps)
  also have "c # (cs @ 0x2C # r) = Number_toString i @ 0x2C # r" using h(1) by simp
  finally show ?thesis by (simp add: parse_number_toString)
qed

lemma skip_ws_number: "skip_ws (Number_toString i @ r) = Number_toString i @ r"
proof -
  obtain c cs where h: "Number_toString i = c # cs" "c = 0x2D \<or> is_digit c"
    using Number_toString_head by blast
  then have "\<not> is_json_ws c" by (auto simp: is_json_ws_def is_digit_def)
  then show ?thesis using h(1) by (simp add: skip_ws_Cons)
qed

lemma parse_value_string:
  "parse_value (Suc n) (QuoteJSONString s @ r) = Some (JString s, r)"
  by (simp add: QuoteJSONString_def parse_value.simps parse_chars_quote_units)

lemma skip_ws_string: "skip_ws (QuoteJSONString s @ r) = QuoteJSONString s @ r"
  by (simp add: QuoteJSONString_def skip_ws_Cons is_json_ws_def)

lemma parse_value_boolean:
  "parse_value (Suc n) ((if b then js ''true'' else js ''false'') @ 0x7D # r)
     = Some (JBoolean b, 0x7D # r)"
  by (simp add: parse_value.simps js_def is_digit_def)

lemma skip_ws_boolean:
  "skip_ws ((if b then js ''true'' else js ''false'') @ r) = (if b then js ''true'' else js ''false'') @ r"
  by (simp add: js_def skip_ws_Cons is_json_ws_def)

lemma parse_members_step:
  assumes "skip_ws vt = vt" and "parse_value n vt = Some (v, e # es)" and "\<not> is_json_ws e"
  shows "parse_members (Suc n) (QuoteJSONString k @ 0x3A # vt)
           = (if e = 0x2C then
                (case parse_members n (skip_ws es) of
                   None \<Rightarrow> None
                 | Some (ms, r) \<Rightarrow> Some ((k, v) # ms, r))
              else if e = 0x7D then Some ([(k, v)], es)
              else None)"
  using assms
  by (simp add: QuoteJSONString_def parse_members.simps parse_chars_quote_units skip_ws_Cons
        is_json_ws_def)

lemma property_names_distinct:
  "js ''id'' \<noteq> js ''text''" "js ''id'' \<noteq> js ''completed''" "js ''text'' \<noteq> js ''completed''"
  by (simp_all add: js_def)

lemma parse_value_task:
  "parse_value (Suc (Suc (Suc (Suc (Suc n))))) (stringify_task t @ r) = Some (task_value t, r)"
proof -
  let ?b = "(if task_completed t then js ''true'' else js ''false'')"
  let ?m3 = "QuoteJSONString (js ''completed'') @ 0x3A # ?b @ 0x7D # r"
  let ?m2 = "QuoteJSONString (js ''text'') @ 0x3A # QuoteJSONString (task_text t) @ 0x2C # ?m3"
  let ?m1 = "QuoteJSONString (js ''id'') @ 0x3A # Number_toString (task_id t) @ 0x2C # ?m2"
  have m3: "parse_members (Suc (Suc n)) ?m3 = Some ([(js ''completed'', JBoolean (task_completed t))], r)"
    using parse_members_step [of "?b @ 0x7D # r" "Suc n" "JBoolean (task_completed t)" "0x7D" r
        "js ''completed''"]
    by (simp add: skip_ws_boolean parse_value_boolean is_json_ws_def del: append_Cons)
  have m2: "parse_members (Suc (Suc (Suc n))) ?m2
      = Some ([(js ''text'', JString (task_text t)),
               (js ''completed'', JBoolean (task_completed t))], r)"
    using parse_members_step [of "QuoteJSONString (task_text t) @ 0x2C # ?m3" "Suc (Suc n)"
        "JString (task_text t)" "0x2C" ?m3 "js ''text''"]
    by (simp add: skip_ws_string parse_value_string is_json_ws_def m3 del: append_Cons)
  have m1: "parse_members (Suc (Suc (Suc (Suc n)))) ?m1
      = Some ([(js ''id'', JNumber (of_int (task_id t))),
               (js ''text'', JString (task_text t)),
               (js ''completed'', JBoolean (task_completed t))], r)"
    using parse_members_step [of "Number_toString (task_id t) @ 0x2C # ?m2" "Suc (Suc (Suc n))"
        "JNumber (of_int (task_id t))" "0x2C" ?m2 "js ''id''"]
    by (simp add: skip_ws_number skip_ws_string parse_value_number is_json_ws_def m2 del: append_Cons)
  have shape: "stringify_task t @ r = 0x7B # ?m1"
    by (simp add: stringify_task_def)
  have q: "skip_ws ?m1 = 0x22 # tl ?m1"
    by (simp add: QuoteJSONString_def skip_ws_Cons is_json_ws_def)
  have q': "0x22 # tl ?m1 = ?m1"
    by (simp add: QuoteJSONString_def)
  have "parse_value (Suc (Suc (Suc (Suc (Suc n))))) (0x7B # ?m1)
      = (case parse_members (Suc (Suc (Suc (Suc n)))) (0x22 # tl ?m1) of
             None \<Rightarrow> None
           | Some (ms, r) \<Rightarrow> Some (JObject (foldl set_property [] ms), r))"
    by (simp add: parse_value.simps q del: append_Cons)
  also have "\<dots> = Some (task_value t, r)"
    unfolding q' m1
    using property_names_distinct by (simp add: task_value_def set_property_def)
  finally show ?thesis unfolding shape .
qed

lemma stringify_task_head: "\<exists>cs. stringify_task t = 0x7B # cs"
  by (simp add: stringify_task_def)

lemma stringify_elements_head: "ts \<noteq> [] \<Longrightarrow> \<exists>cs. stringify_elements ts = 0x7B # cs"
  by (induction ts rule: stringify_elements.induct) (simp_all add: stringify_task_def)

lemma length_stringify_task: "5 \<le> length (stringify_task t)"
  by (simp add: stringify_task_def QuoteJSONString_def)

lemma length_stringify_elements: "5 * length ts \<le> length (stringify_elements ts)"
proof (induction ts rule: stringify_elements.induct)
  case 1
  show ?case by simp
next
  case (2 t)
  show ?case using length_stringify_task [of t] by simp
next
  case (3 t u ts)
  then show ?case using length_stringify_task [of t] by simp
qed

lemma five_le_Suc: "5 \<le> n \<Longrightarrow> \<exists>k. n = Suc (Suc (Suc (Suc (Suc k))))"
  by (rule exI [of _ "n - 5"]) arith

lemma parse_elements_tasks:
  "ts \<noteq> [] \<Longrightarrow> length ts + 4 \<le> n \<Longrightarrow>
     parse_elements n (stringify_elements ts @ 0x5D # r) = Some (map task_value ts, r)"
proof (induction ts arbitrary: n rule: stringify_elements.induct)
  case 1
  then show ?case by simp
next
  case (2 t)
  then have "5 \<le> n" by simp
  then obtain k where n: "n = Suc (Suc (Suc (Suc (Suc k))))"
    using five_le_Suc by blast
  show ?case
    unfolding n
    by (simp add: parse_elements.simps parse_value_task skip_ws_Cons is_json_ws_def)
next
  case (3 t u ts)
  then have "5 \<le> n" by simp
  then obtain k where n: "n = Suc (Suc (Suc (Suc (Suc k))))"
    using five_le_Suc by blast
  with "3.prems" have fuel: "length (u # ts) + 4 \<le> Suc (Suc (Suc (Suc k)))" by simp
  obtain cs where hd: "stringify_elements (u # ts) = 0x7B # cs"
    using stringify_elements_head [of "u # ts"] by auto
  have ws: "skip_ws (stringify_elements (u # ts) @ 0x5D # r) = stringify_elements (u # ts) @ 0x5D # r"
    unfolding hd by (simp add: skip_ws_Cons is_json_ws_def)
  have "parse_elements n (stringify_task t @ 0x2C # stringify_elements (u # ts) @ 0x5D # r)
      = Some (task_value t # map task_value (u # ts), r)"
    unfolding n
    using "3.IH" [OF _ fuel]
    by (simp add: parse_elements.simps(2) [of "Suc (Suc (Suc (Suc k)))"] parse_value_task skip_ws_Cons
          is_json_ws_def ws del: stringify_elements.simps)
  then show ?case by simp
qed

lemma JSON_parse_stringify: "JSON_parse (JSON_stringify ts) = Inr (todos_value ts)"
proof (cases "ts = []")
  case True
  then show ?thesis
    by (simp add: JSON_parse_def JSON_stringify_def todos_value_def parse_value.simps skip_ws_def
          is_json_ws_def)
next
  case False
  obtain cs where hd: "stringify_elements ts = 0x7B # cs"
    using stringify_elements_head [OF False] by auto
  have "1 \<le> length ts" using False by (cases ts) auto
  with length_stringify_elements [of ts]
  have fuel: "length ts + 4 \<le> Suc (length (stringify_elements ts))" by simp
  have el: "parse_elements (Suc (length (stringify_elements ts))) (stringify_elements ts @ 0x5D # [])
      = Some (map task_value ts, [])"
    by (rule parse_elements_tasks [OF False fuel])
  have ws: "skip_ws (stringify_elements ts @ [0x5D]) = 0x7B # cs @ [0x5D]"
    unfolding hd by (simp add: skip_ws_Cons is_json_ws_def)
  have "parse_value (Suc (Suc (length (stringify_elements ts)))) (0x5B # stringify_elements ts @ [0x5D])
      = Some (JArray (map task_value ts), [])"
    using el unfolding hd
    by (simp add: parse_value.simps skip_ws_Cons is_json_ws_def)
  then show ?thesis
    by (simp add: JSON_parse_def JSON_stringify_def todos_value_def skip_ws_Cons is_json_ws_def
          skip_ws_def)
qed

lemma JSON_stringify_not_Nil: "JSON_stringify ts \<noteq> []"
  by (simp add: JSON_stringify_def)

lemma task_value_inj: "task_value t = task_value u \<Longrightarrow> t = u"
  by (cases t, cases u) (simp add: task_value_def)

lemma todos_value_inj: "todos_value ts = todos_value us \<Longrightarrow> ts = us"
proof -
  assume "todos_value ts = todos_value us"
  then have "map task_value ts = map task_value us" by (simp add: todos_value_def)
  moreover have "inj task_value" by (rule injI) (rule task_value_inj)
  ultimately show "ts = us" by (simp add: inj_map_eq_map)
qed

text \<open>
  Claim C6. Saving a task collection and loading it back yields that collection: the value
  \<open>loadTasks\<close> assigns is the array of the same tasks, with the same ids, texts and
  completed flags in the same order, and it is the value of no other collection.
\<close>

theorem save_then_load_round_trip:
  "loadTasks (saveTasks s) = Inr (todos_value (todos s))
   \<and> (\<forall>ts. loadTasks (saveTasks s) = Inr (todos_value ts) \<longrightarrow> ts = todos s)"
proof -
  have "loadTasks (saveTasks s) = Inr (todos_value (todos s))"
    by (simp add: loadTasks_def JSON_stringify_not_Nil JSON_parse_stringify)
  then show ?thesis by (auto dest: todos_value_inj)
qed

theorem save_then_load_round_trip_witness:
  "loadTasks (saveTasks example_page) = Inr (todos_value (todos example_page))
   \<and> loadTasks (saveTasks example_page)
       = Inr (JArray [JObject [(js ''id'', JNumber 1730000000000),
                               (js ''text'', JString (js ''Buy Milk'')),
                               (js ''completed'', JBoolean False)],
                      JObject [(js ''id'', JNumber 1730000000001),
                               (js ''text'', JString (js ''eggs'')),
                               (js ''completed'', JBoolean True)]])"
proof -
  have v: "todos_value (todos example_page)
      = JArray [JObject [(js ''id'', JNumber 1730000000000),
                         (js ''text'', JString (js ''Buy Milk'')),
                         (js ''completed'', JBoolean False)],
                JObject [(js ''id'', JNumber 1730000000001),
                         (js ''text'', JString (js ''eggs'')),
                         (js ''completed'', JBoolean True)]]"
    by (simp add: todos_value_def task_value_def example_page_def)
  from save_then_load_round_trip [of example_page]
  have "loadTasks (saveTasks example_page) = Inr (todos_value (todos example_page))" by blast
  then show ?thesis unfolding v by simp
qed

section \<open>Loading\<close>

text \<open>Two slot values that are not the serialization of a task collection.\<close>

lemma JSON_parse_open_brace: "JSON_parse (js ''{'') = Inl SyntaxError"
  by (simp add: JSON_parse_def js_def skip_ws_def is_json_ws_def parse_value.simps)

lemma parse_number_five: "parse_number [0x35] = Some (5, [])"
  by (simp add: parse_number_def parse_int_part_def is_digit_def parse_fraction_def
        parse_exponent_def digits_value_def digit_value_def)

lemma JSON_parse_five: "JSON_parse (js ''5'') = Inr (JNumber 5)"
  by (simp add: JSON_parse_def js_def skip_ws_def is_json_ws_def parse_value.simps
        parse_number_five is_digit_def)

text \<open>
  Claim C1 says that \<open>loadTasks\<close> returns an empty collection, and never fails, for every
  slot value that is absent, malformed or not a task array. With the malformed text
  \<open>{\<close> in the slot the \<open>SyntaxError\<close> of \<open>JSON.parse\<close> leaves \<open>loadTasks\<close>, and with the
  well-formed text \<open>5\<close> the value assigned to \<open>todos\<close> is the number five, not an empty
  array.
\<close>

theorem loadTasks_malformed_counterexample:
  "loadTasks (example_page\<lparr>localStorage := [STORAGE_KEY \<mapsto> js ''{'']\<rparr>) = Inl SyntaxError
   \<and> loadTasks (example_page\<lparr>localStorage := [STORAGE_KEY \<mapsto> js ''5'']\<rparr>) = Inr (JNumber 5)
   \<and> JNumber 5 \<noteq> JArray []"
proof -
  have "js ''{'' \<noteq> []" "js ''5'' \<noteq> []" by (simp_all add: js_def)
  then show ?thesis
    by (simp add: loadTasks_def JSON_parse_open_brace JSON_parse_five)
qed

text \<open>
  Claim C1, amended. For an absent slot value (no entry under the key, or the empty
  string) \<open>loadTasks\<close> returns the empty collection and does not fail. For any other slot
  value it returns what \<open>JSON.parse\<close> makes of it, whatever value that is, and it fails
  exactly when \<open>JSON.parse\<close> fails, with the same exception.
\<close>

theorem loadTasks_spec:
  "(localStorage s STORAGE_KEY = None \<or> localStorage s STORAGE_KEY = Some [] \<longrightarrow>
      loadTasks s = Inr (JArray []))
   \<and> (loadTasks s = Inl e \<longleftrightarrow>
        (\<exists>storedTodos. localStorage s STORAGE_KEY = Some storedTodos \<and> storedTodos \<noteq> []
           \<and> JSON_parse storedTodos = Inl e))
   \<and> (\<forall>storedTodos. localStorage s STORAGE_KEY = Some storedTodos \<and> storedTodos \<noteq> [] \<longrightarrow>
        loadTasks s = JSON_parse storedTodos)"
  by (auto simp: loadTasks_def split: option.splits)

theorem loadTasks_spec_witness:
  "localStorage example_page STORAGE_KEY = None
   \<and> loadTasks example_page = Inr (JArray [])
   \<and> localStorage (example_page\<lparr>localStorage := [STORAGE_KEY \<mapsto> js ''5'']\<rparr>) STORAGE_KEY = Some (js ''5'')
   \<and> js ''5'' \<noteq> []
   \<and> loadTasks (example_page\<lparr>localStorage := [STORAGE_KEY \<mapsto> js ''5'']\<rparr>) = Inr (JNumber 5)"
proof -
  have a: "localStorage example_page STORAGE_KEY = None" by (simp add: example_page_def)
  have b: "localStorage (example_page\<lparr>localStorage := [STORAGE_KEY \<mapsto> js ''5'']\<rparr>) STORAGE_KEY
             = Some (js ''5'')" by simp
  have c: "js ''5'' \<noteq> []" by (simp add: js_def)
  from loadTasks_spec [of example_page]
    loadTasks_spec [of "example_page\<lparr>localStorage := [STORAGE_KEY \<mapsto> js ''5'']\<rparr>"] a b c
  show ?thesis by (simp add: JSON_parse_five)
qed

end
